theory Spec2Isabelle
  imports Main "HOL-Library.Word" "HOL-Library.Multiset"
begin

section \<open>The sorted COLLECT executor (arangod/Aql/SortedCollectExecutor.cpp)\<close>

subsection \<open>Values, rows and the collaborators of the executor\<close>

text \<open>
  \<^verbatim>\<open>AqlValue\<close> is an external type. A value is either empty (default constructed,
  or after \<^verbatim>\<open>erase()\<close>) or carries an opaque payload of type \<open>'v\<close>.
\<close>

datatype 'v AqlValue = EmptyValue | Value 'v

type_synonym RegisterId = nat

text \<open>
  Modelled from the spec: \<^verbatim>\<open>ExecutionNode::MaxRegisterId\<close> is declared outside the
  sources at hand. It is the sentinel register id that stands for "no target column is
  configured"; only its being one fixed register id matters here.
\<close>

definition MaxRegisterId :: RegisterId where
  "MaxRegisterId = 1000"

text \<open>
  \<^verbatim>\<open>InputAqlItemRow\<close>: a fixed-width view of values addressed by register id, or the
  invalid row made by \<^verbatim>\<open>CreateInvalidInputRowHint\<close>. The executor calls \<^verbatim>\<open>getValue\<close>
  on initialized rows only; that the configured registers are registers of the rows is
  the business of the register planning, which is external.
\<close>

datatype 'v InputAqlItemRow = InvalidInputRow | InputRow "'v AqlValue list"

fun isInitialized :: "'v InputAqlItemRow \<Rightarrow> bool" where
  "isInitialized InvalidInputRow = False"
| "isInitialized (InputRow vs) = True"

fun getValue :: "'v InputAqlItemRow \<Rightarrow> RegisterId \<Rightarrow> 'v AqlValue" where
  "getValue (InputRow vs) r = vs ! r"

datatype ExecutionState = DONE | HASMORE | WAITING

datatype error = AssertionFailed

text \<open>What \<^verbatim>\<open>addLine\<close> appends to the VelocyPack builder for one row.\<close>

datatype 'v BuilderItem =
    ExpressionItem "'v AqlValue"
  | ObjectItem "(string \<times> 'v AqlValue) list"

text \<open>
  The \<^verbatim>\<open>VPackBuilder\<close> member \<^verbatim>\<open>_builder\<close>: whether an array is open at top level, and
  what has been added. A fresh builder is closed and empty; only \<^verbatim>\<open>openArray()\<close>
  opens it. The buffer and its conditional deleter are memory management and are left out.
\<close>

record 'v Builder =
  isOpenArray :: bool
  items :: "'v BuilderItem list"

definition freshBuilder :: "'v Builder" where
  "freshBuilder = \<lparr>isOpenArray = False, items = []\<rparr>"

definition openArray :: "'v Builder \<Rightarrow> 'v Builder" where
  "openArray b = b\<lparr>isOpenArray := True\<rparr>"

definition addItem :: "'v BuilderItem \<Rightarrow> 'v Builder \<Rightarrow> 'v Builder" where
  "addItem x b = b\<lparr>items := items b @ [x]\<rparr>"

text \<open>The values an output register can receive from \<^verbatim>\<open>writeToOutput\<close>.\<close>

datatype 'v OutputValue =
    Moved "'v AqlValue"
  | Stolen string "'v AqlValue list"
  | UIntValue "64 word"
  | ArrayValue "'v BuilderItem list"

text \<open>
  Modelled from the spec: the \<^verbatim>\<open>Aggregator\<close> class is outside the sources at hand; the
  executor depends on its three operations only. An aggregator is represented by its
  type name and the history of the calls it has received. \<^verbatim>\<open>stealValue()\<close> yields the
  result for the values reduced since the last \<^verbatim>\<open>reset()\<close> or \<^verbatim>\<open>stealValue()\<close>, kept
  symbolic as \<open>Stolen name values\<close>, and leaves the aggregator empty.
\<close>

datatype 'v AggCall = AggReset | AggReduce "'v AqlValue" | AggSteal

record 'v Aggregator =
  aggType :: string
  calls :: "'v AggCall list"

definition fromTypeString :: "string \<Rightarrow> 'v Aggregator" where
  "fromTypeString aggName = \<lparr>aggType = aggName, calls = []\<rparr>"

fun pendingFrom :: "'v AqlValue list \<Rightarrow> 'v AggCall list \<Rightarrow> 'v AqlValue list" where
  "pendingFrom acc [] = acc"
| "pendingFrom acc (AggReduce v # cs) = pendingFrom (acc @ [v]) cs"
| "pendingFrom acc (AggReset # cs) = pendingFrom [] cs"
| "pendingFrom acc (AggSteal # cs) = pendingFrom [] cs"

definition pendingValues :: "'v AggCall list \<Rightarrow> 'v AqlValue list" where
  "pendingValues cs = pendingFrom [] cs"

definition aggReset :: "'v Aggregator \<Rightarrow> 'v Aggregator" where
  "aggReset a = a\<lparr>calls := calls a @ [AggReset]\<rparr>"

definition aggReduce :: "'v Aggregator \<Rightarrow> 'v AqlValue \<Rightarrow> 'v Aggregator" where
  "aggReduce a v = a\<lparr>calls := calls a @ [AggReduce v]\<rparr>"

definition aggStealValue :: "'v Aggregator \<Rightarrow> 'v OutputValue \<times> 'v Aggregator" where
  "aggStealValue a =
     (Stolen (aggType a) (pendingValues (calls a)), a\<lparr>calls := calls a @ [AggSteal]\<rparr>)"

text \<open>
  \<^verbatim>\<open>SortedCollectExecutorInfos\<close>, with the fields named after their getters. The
  comparator \<^verbatim>\<open>AqlValue::Compare\<close> under the transaction of the infos is external and is
  carried here as \<open>Compare\<close>. Register pairs are (output register, input register).
\<close>

record 'v Infos =
  getAggregateTypes :: "string list"
  getAggregatedRegisters :: "(RegisterId \<times> RegisterId) list"
  getGroupRegisters :: "(RegisterId \<times> RegisterId) list"
  getCollectRegister :: RegisterId
  getExpressionRegister :: RegisterId
  getVariables :: "(string \<times> RegisterId) list"
  getExpressionVariable :: "string option"
  getCount :: bool
  Compare :: "'v AqlValue \<Rightarrow> 'v AqlValue \<Rightarrow> int"

text \<open>
  \<^verbatim>\<open>OutputAqlItemRow\<close> (external): the registers written so far, in the order of the
  writes, the input row last handed over as the source of the passed-through registers,
  and the number of completed \<^verbatim>\<open>writeToOutput\<close> calls on this row.
\<close>

record 'v OutputAqlItemRow =
  cells :: "(RegisterId \<times> 'v OutputValue) list"
  sourceRow :: "'v InputAqlItemRow"
  rowsWritten :: nat

definition freshOutput :: "'v OutputAqlItemRow" where
  "freshOutput = \<lparr>cells = [], sourceRow = InvalidInputRow, rowsWritten = 0\<rparr>"

definition moveValueInto ::
  "RegisterId \<Rightarrow> 'v InputAqlItemRow \<Rightarrow> 'v OutputValue \<Rightarrow> 'v OutputAqlItemRow \<Rightarrow> 'v OutputAqlItemRow" where
  "moveValueInto reg src v out = out\<lparr>cells := cells out @ [(reg, v)], sourceRow := src\<rparr>"

definition cloneValueInto ::
  "RegisterId \<Rightarrow> 'v InputAqlItemRow \<Rightarrow> 'v OutputValue \<Rightarrow> 'v OutputAqlItemRow \<Rightarrow> 'v OutputAqlItemRow" where
  "cloneValueInto reg src v out = out\<lparr>cells := cells out @ [(reg, v)], sourceRow := src\<rparr>"

subsection \<open>CollectGroup\<close>

text \<open>
  The members of \<^verbatim>\<open>CollectGroup\<close>. The member \<^verbatim>\<open>count\<close> is named \<open>countFlag\<close>, and
  \<^verbatim>\<open>groupLength\<close>, a \<^verbatim>\<open>size_t\<close>, is a 64-bit word. The methods \<^verbatim>\<open>addValues\<close> and
  \<^verbatim>\<open>groupValuesToArray\<close> are never called by \<^verbatim>\<open>produceRow\<close> and are left out. Three
  ghost logs record the ownership events of group-key values: \<open>clonedLog\<close> the
  non-empty values cloned into a slot, \<open>movedLog\<close> the non-empty values handed to the
  output, \<open>releasedLog\<close> the non-empty values on which \<^verbatim>\<open>destroy()\<close> was called.
\<close>

record 'v CollectGroup =
  groupValues :: "'v AqlValue list"
  aggregators :: "'v Aggregator list"
  groupLength :: "64 word"
  countFlag :: bool
  lastInputRow :: "'v InputAqlItemRow"
  builder :: "'v Builder"
  clonedLog :: "'v AqlValue list"
  movedLog :: "'v AqlValue list"
  releasedLog :: "'v AqlValue list"

definition owned :: "'v AqlValue list \<Rightarrow> 'v AqlValue list" where
  "owned vs = filter (\<lambda>v. v \<noteq> EmptyValue) vs"

text \<open>The constructor, with its assertion on the number of aggregators.\<close>

definition CollectGroup_ctor :: "bool \<Rightarrow> 'v Infos \<Rightarrow> error + 'v CollectGroup" where
  "CollectGroup_ctor cnt infos =
     (let aggs = map fromTypeString (getAggregateTypes infos) in
      if length (getAggregatedRegisters infos) = length aggs
      then Inr \<lparr>groupValues = [], aggregators = aggs, groupLength = 0, countFlag = cnt,
                lastInputRow = InvalidInputRow, builder = freshBuilder,
                clonedLog = [], movedLog = [], releasedLog = []\<rparr>
      else Inl AssertionFailed)"

definition initialize :: "nat \<Rightarrow> 'v CollectGroup \<Rightarrow> 'v CollectGroup" where
  "initialize capacity g =
     g\<lparr>groupValues := replicate capacity EmptyValue,
       groupLength := 0,
       aggregators := map aggReset (aggregators g)\<rparr>"

text \<open>
  Modelled from the spec: \<^verbatim>\<open>CollectGroup::isValid\<close> is defined in the header, which is
  not among the sources. The accumulator is valid exactly while a row has contributed to
  the open run, which is what \<^verbatim>\<open>writeToOutput\<close> asserts of \<^verbatim>\<open>_lastInputRow\<close>.
\<close>

definition isValid :: "'v CollectGroup \<Rightarrow> bool" where
  "isValid g = isInitialized (lastInputRow g)"

text \<open>The destructor calls \<^verbatim>\<open>destroy()\<close> on every slot.\<close>

definition CollectGroup_dtor :: "'v CollectGroup \<Rightarrow> 'v CollectGroup" where
  "CollectGroup_dtor g = g\<lparr>releasedLog := releasedLog g @ owned (groupValues g)\<rparr>"

text \<open>
  The ownership discipline of the group-key values, as an invariant of the accumulator:
  there is one slot per group register, nothing has been released, every cloned value
  is either still held in a slot or has been handed to the output, and an accumulator
  that is not valid holds no value.
\<close>

definition ownershipInv :: "'v Infos \<Rightarrow> 'v CollectGroup \<Rightarrow> bool" where
  "ownershipInv infos g \<longleftrightarrow>
     length (groupValues g) = length (getGroupRegisters infos) \<and>
     releasedLog g = [] \<and>
     mset (clonedLog g) = mset (owned (groupValues g)) + mset (movedLog g) \<and>
     (isValid g \<or> owned (groupValues g) = [])"

text \<open>The loop of \<^verbatim>\<open>addLine\<close> over the aggregators, \<open>j\<close> being its counter.\<close>

fun reduceFrom ::
  "'v Infos \<Rightarrow> 'v InputAqlItemRow \<Rightarrow> nat \<Rightarrow> 'v Aggregator list \<Rightarrow> 'v Aggregator list" where
  "reduceFrom infos input j [] = []"
| "reduceFrom infos input j (a # as) =
     aggReduce a (getValue input (snd (getAggregatedRegisters infos ! j)))
       # reduceFrom infos input (Suc j) as"

definition addLine :: "'v Infos \<Rightarrow> 'v CollectGroup \<Rightarrow> 'v InputAqlItemRow \<Rightarrow> 'v CollectGroup" where
  "addLine infos g input =
     (let g1 = g\<lparr>lastInputRow := input,
                 aggregators := reduceFrom infos input 0 (aggregators g)\<rparr>
      in if getCollectRegister infos \<noteq> MaxRegisterId then
           (if countFlag g1 then g1\<lparr>groupLength := groupLength g1 + 1\<rparr>
            else if getExpressionVariable infos \<noteq> None then
              g1\<lparr>builder := addItem (ExpressionItem (getValue input (getExpressionRegister infos)))
                               (builder g1)\<rparr>
            else
              g1\<lparr>builder := addItem (ObjectItem (map (\<lambda>p. (fst p, getValue input (snd p)))
                                                    (getVariables infos)))
                               (builder g1)\<rparr>)
         else g1)"

text \<open>The loop of \<^verbatim>\<open>reset\<close> that clones the group-key columns, \<open>i\<close> being its counter.\<close>

fun cloneFrom ::
  "'v InputAqlItemRow \<Rightarrow> nat \<Rightarrow> (RegisterId \<times> RegisterId) list \<Rightarrow> 'v AqlValue list \<Rightarrow> 'v AqlValue list" where
  "cloneFrom input i [] gv = gv"
| "cloneFrom input i (it # its) gv = cloneFrom input (Suc i) its (gv[i := getValue input (snd it)])"

text \<open>
  \<^verbatim>\<open>reset\<close>. \<^verbatim>\<open>destroy()\<close> is logged for every non-empty slot and, as in the source,
  only slot 0 is erased afterwards.
\<close>

definition reset :: "'v Infos \<Rightarrow> 'v CollectGroup \<Rightarrow> 'v InputAqlItemRow \<Rightarrow> 'v CollectGroup" where
  "reset infos g input =
     (let g1 = g\<lparr>builder := freshBuilder\<rparr>;
          g2 = (if groupValues g1 \<noteq> []
                then g1\<lparr>releasedLog := releasedLog g1 @ owned (groupValues g1),
                        groupValues := (groupValues g1)[0 := EmptyValue]\<rparr>
                else g1);
          g3 = g2\<lparr>groupLength := 0, lastInputRow := input,
                  aggregators := map aggReset (aggregators g2)\<rparr>
      in if isInitialized input then
           (let gv = cloneFrom input 0 (getGroupRegisters infos) (groupValues g3);
                g4 = g3\<lparr>builder := openArray (builder g3),
                        groupValues := gv,
                        clonedLog := clonedLog g3
                          @ owned (map (\<lambda>it. getValue input (snd it)) (getGroupRegisters infos))\<rparr>
            in addLine infos g4 input)
         else g3)"

text \<open>The loop of \<^verbatim>\<open>isSameGroup\<close> over the group registers, \<open>i\<close> being its counter.\<close>

fun sameFrom ::
  "'v Infos \<Rightarrow> 'v AqlValue list \<Rightarrow> 'v InputAqlItemRow \<Rightarrow> nat \<Rightarrow> (RegisterId \<times> RegisterId) list \<Rightarrow> bool" where
  "sameFrom infos gv input i [] = True"
| "sameFrom infos gv input i (it # its) =
     (if Compare infos (gv ! i) (getValue input (snd it)) \<noteq> 0 then False
      else sameFrom infos gv input (Suc i) its)"

definition isSameGroup :: "'v Infos \<Rightarrow> 'v CollectGroup \<Rightarrow> 'v InputAqlItemRow \<Rightarrow> bool" where
  "isSameGroup infos g input =
     (if \<not> isInitialized input then False
      else sameFrom infos (groupValues g) input 0 (getGroupRegisters infos))"

text \<open>The two loops of \<^verbatim>\<open>writeToOutput\<close>, over the group registers and the aggregators.\<close>

fun moveGroupValues ::
  "nat \<Rightarrow> (RegisterId \<times> RegisterId) list \<Rightarrow> 'v CollectGroup \<Rightarrow> 'v OutputAqlItemRow
    \<Rightarrow> 'v CollectGroup \<times> 'v OutputAqlItemRow" where
  "moveGroupValues i [] g out = (g, out)"
| "moveGroupValues i (it # its) g out =
     (let val = groupValues g ! i;
          out1 = moveValueInto (fst it) (lastInputRow g) (Moved val) out;
          g1 = g\<lparr>groupValues := (groupValues g)[i := EmptyValue],
                 movedLog := movedLog g @ owned [val]\<rparr>
      in moveGroupValues (Suc i) its g1 out1)"

fun stealFrom ::
  "'v Infos \<Rightarrow> 'v InputAqlItemRow \<Rightarrow> nat \<Rightarrow> 'v Aggregator list \<Rightarrow> 'v OutputAqlItemRow
    \<Rightarrow> 'v Aggregator list \<times> 'v OutputAqlItemRow" where
  "stealFrom infos src j [] out = ([], out)"
| "stealFrom infos src j (a # as) out =
     (let (val, a1) = aggStealValue a;
          out1 = moveValueInto (fst (getAggregatedRegisters infos ! j)) src val out;
          (as1, out2) = stealFrom infos src (Suc j) as out1
      in (a1 # as1, out2))"

definition writeToOutput ::
  "'v Infos \<Rightarrow> 'v CollectGroup \<Rightarrow> 'v OutputAqlItemRow
    \<Rightarrow> error + ('v CollectGroup \<times> 'v OutputAqlItemRow)" where
  "writeToOutput infos g out =
     (if \<not> isInitialized (lastInputRow g) then Inl AssertionFailed
      else
        (let (g1, out1) = moveGroupValues 0 (getGroupRegisters infos) g out;
             (aggs, out2) = stealFrom infos (lastInputRow g1) 0 (aggregators g1) out1;
             g2 = g1\<lparr>aggregators := aggs\<rparr>
         in if getCollectRegister infos \<noteq> MaxRegisterId then
              (if getCount infos then
                 Inr (g2, (cloneValueInto (getCollectRegister infos) (lastInputRow g2)
                             (UIntValue (groupLength g2)) out2)
                          \<lparr>rowsWritten := Suc (rowsWritten out2)\<rparr>)
               else if \<not> isOpenArray (builder g2) then Inl AssertionFailed
               else
                 Inr (g2\<lparr>builder := freshBuilder\<rparr>,
                      (moveValueInto (getCollectRegister infos) (lastInputRow g2)
                         (ArrayValue (items (builder g2))) out2)
                      \<lparr>rowsWritten := Suc (rowsWritten out2)\<rparr>))
            else Inr (g2, out2\<lparr>rowsWritten := Suc (rowsWritten out2)\<rparr>)))"

subsection \<open>SortedCollectExecutor\<close>

record 'v SortedCollectExecutor =
  currentGroup :: "'v CollectGroup"
  fetcherDone :: bool

definition SortedCollectExecutor_ctor :: "'v Infos \<Rightarrow> error + 'v SortedCollectExecutor" where
  "SortedCollectExecutor_ctor infos =
     (case CollectGroup_ctor (getCount infos) infos of
        Inl e \<Rightarrow> Inl e
      | Inr g \<Rightarrow> Inr \<lparr>currentGroup = initialize (length (getGroupRegisters infos)) g,
                      fetcherDone = False\<rparr>)"

text \<open>
  Modelled from the spec: the row source (\<^verbatim>\<open>SingleRowFetcher\<close>) is external. It is
  represented by the list of the answers it will still give; once they are used up it
  keeps answering that the stream is exhausted, with no row.
\<close>

type_synonym 'v Fetcher = "(ExecutionState \<times> 'v InputAqlItemRow) list"

fun fetchRow :: "'v Fetcher \<Rightarrow> (ExecutionState \<times> 'v InputAqlItemRow) \<times> 'v Fetcher" where
  "fetchRow [] = ((DONE, InvalidInputRow), [])"
| "fetchRow (r # rs) = (r, rs)"

type_synonym 'v ProduceResult =
  "ExecutionState \<times> 'v SortedCollectExecutor \<times> 'v OutputAqlItemRow \<times> 'v Fetcher"


text \<open>
  The \<^verbatim>\<open>while (true)\<close> loop of \<^verbatim>\<open>produceRow\<close>: \<open>g\<close> and \<open>fd\<close> are
  \<^verbatim>\<open>_currentGroup\<close> and \<^verbatim>\<open>_fetcherDone\<close>, the latter being \<open>fd \<or> state = DONE\<close>
  once the fetched state has been looked at. The fault-injection hooks
  (\<^verbatim>\<open>TRI_IF_FAILURE\<close>) are inactive, and the two assertions on
  \<^verbatim>\<open>output.produced()\<close>, which concern the bookkeeping of the external output row, are
  not part of the model; every other assertion is a branch that fails.
\<close>

function produceLoop ::
  "'v Infos \<Rightarrow> 'v CollectGroup \<Rightarrow> bool \<Rightarrow> 'v OutputAqlItemRow \<Rightarrow> 'v Fetcher
    \<Rightarrow> error + 'v ProduceResult" where
  "produceLoop infos g fd out fetcher =
     (case fetchRow fetcher of
        ((state, input), rest) \<Rightarrow>
          if state = WAITING then
            Inr (WAITING, \<lparr>currentGroup = g, fetcherDone = fd\<rparr>, out, rest)
          else if isSameGroup infos g input then
            (if state = DONE then
               (case writeToOutput infos (addLine infos g input) out of
                  Inl e \<Rightarrow> Inl e
                | Inr (g1, out1) \<Rightarrow>
                    Inr (DONE, \<lparr>currentGroup = reset infos g1 InvalidInputRow,
                                fetcherDone = (fd \<or> state = DONE)\<rparr>, out1, rest))
             else produceLoop infos (addLine infos g input) (fd \<or> state = DONE) out rest)
          else if isValid g then
            (case writeToOutput infos g out of
               Inl e \<Rightarrow> Inl e
             | Inr (g1, out1) \<Rightarrow>
                 if isInitialized input then
                   Inr (HASMORE, \<lparr>currentGroup = reset infos g1 input,
                                  fetcherDone = (fd \<or> state = DONE)\<rparr>, out1, rest)
                 else if state = DONE then
                   Inr (DONE, \<lparr>currentGroup = reset infos g1 input,
                               fetcherDone = (fd \<or> state = DONE)\<rparr>, out1, rest)
                 else Inl AssertionFailed)
          else if \<not> isInitialized input then
            (if state = DONE then
               Inr (DONE, \<lparr>currentGroup = g, fetcherDone = (fd \<or> state = DONE)\<rparr>, out, rest)
             else Inl AssertionFailed)
          else produceLoop infos (reset infos g input) (fd \<or> state = DONE) out rest)"
  by pat_completeness auto
termination
proof (relation "measure (\<lambda>(infos, g, fd, out, fetcher). length fetcher)")
  show "wf (measure (\<lambda>(infos, g, fd, out, fetcher). length fetcher))"
    by simp
next
  fix infos :: "'v Infos" and g :: "'v CollectGroup" and fd :: bool
    and out :: "'v OutputAqlItemRow" and fetcher :: "'v Fetcher"
    and x rest y state input
  assume "(x, rest) = fetchRow fetcher" "(state, input) = x"
    "state \<noteq> WAITING" "isSameGroup infos g input" "state \<noteq> DONE"
  then show "((infos, addLine infos g input, fd \<or> state = DONE, out, rest), infos, g, fd, out, fetcher)
      \<in> measure (\<lambda>(infos, g, fd, out, fetcher). length fetcher)"
    by (cases fetcher) auto
next
  fix infos :: "'v Infos" and g :: "'v CollectGroup" and fd :: bool
    and out :: "'v OutputAqlItemRow" and fetcher :: "'v Fetcher"
    and x rest y state input
  assume "(x, rest) = fetchRow fetcher" "(state, input) = x"
    "state \<noteq> WAITING" "\<not> isSameGroup infos g input" "\<not> isValid g"
    "\<not> \<not> isInitialized input"
  then show "((infos, reset infos g input, fd \<or> state = DONE, out, rest), infos, g, fd, out, fetcher)
      \<in> measure (\<lambda>(infos, g, fd, out, fetcher). length fetcher)"
    by (cases fetcher) auto
qed


definition produceRow ::
  "'v Infos \<Rightarrow> 'v SortedCollectExecutor \<Rightarrow> 'v OutputAqlItemRow \<Rightarrow> 'v Fetcher
    \<Rightarrow> error + 'v ProduceResult" where
  "produceRow infos ex out fetcher =
     (if fetcherDone ex \<and> isValid (currentGroup ex) then
        (case writeToOutput infos (currentGroup ex) out of
           Inl e \<Rightarrow> Inl e
         | Inr (g1, out1) \<Rightarrow>
             (let g2 = reset infos g1 InvalidInputRow in
              if isValid g2 then Inl AssertionFailed
              else Inr (DONE, ex\<lparr>currentGroup := g2\<rparr>, out1, fetcher)))
      else produceLoop infos (currentGroup ex) (fetcherDone ex) out fetcher)"


text \<open>
  Modelled from the spec: the contract of the row source. A suspended answer carries no
  row, an answer with more to come carries a row, and nothing follows the answer that
  reports exhaustion (which may or may not carry the last row).
\<close>

fun wfFetcher :: "'v Fetcher \<Rightarrow> bool" where
  "wfFetcher [] = True"
| "wfFetcher ((WAITING, input) # rest) = (\<not> isInitialized input \<and> wfFetcher rest)"
| "wfFetcher ((HASMORE, input) # rest) = (isInitialized input \<and> wfFetcher rest)"
| "wfFetcher ((DONE, input) # rest) = (rest = [])"

text \<open>The same row source with every suspension taken out.\<close>

definition withoutWaiting :: "'v Fetcher \<Rightarrow> 'v Fetcher" where
  "withoutWaiting fetcher = filter (\<lambda>r. fst r \<noteq> WAITING) fetcher"

text \<open>The rows a row source delivers, in order.\<close>

definition rowsOf :: "'v Fetcher \<Rightarrow> 'v InputAqlItemRow list" where
  "rowsOf fetcher = filter isInitialized (map snd fetcher)"

subsection \<open>The loop, one fetched answer at a time\<close>

declare produceLoop.simps [simp del]

lemma isSameGroup_invalid [simp]: "\<not> isSameGroup infos g InvalidInputRow"
  by (simp add: isSameGroup_def)

lemma produceLoop_Nil:
  "produceLoop infos g fd out [] =
     (if isValid g then
        (case writeToOutput infos g out of
           Inl e \<Rightarrow> Inl e
         | Inr (g1, out1) \<Rightarrow>
             Inr (DONE, \<lparr>currentGroup = reset infos g1 InvalidInputRow, fetcherDone = True\<rparr>,
                  out1, []))
      else Inr (DONE, \<lparr>currentGroup = g, fetcherDone = True\<rparr>, out, []))"
  by (simp add: produceLoop.simps [of infos g fd out "[]"] split: sum.splits)

lemma produceLoop_Cons:
  "produceLoop infos g fd out ((state, input) # rest) =
     (if state = WAITING then
        Inr (WAITING, \<lparr>currentGroup = g, fetcherDone = fd\<rparr>, out, rest)
      else if isSameGroup infos g input then
        (if state = DONE then
           (case writeToOutput infos (addLine infos g input) out of
              Inl e \<Rightarrow> Inl e
            | Inr (g1, out1) \<Rightarrow>
                Inr (DONE, \<lparr>currentGroup = reset infos g1 InvalidInputRow,
                            fetcherDone = (fd \<or> state = DONE)\<rparr>, out1, rest))
         else produceLoop infos (addLine infos g input) (fd \<or> state = DONE) out rest)
      else if isValid g then
        (case writeToOutput infos g out of
           Inl e \<Rightarrow> Inl e
         | Inr (g1, out1) \<Rightarrow>
             if isInitialized input then
               Inr (HASMORE, \<lparr>currentGroup = reset infos g1 input,
                              fetcherDone = (fd \<or> state = DONE)\<rparr>, out1, rest)
             else if state = DONE then
               Inr (DONE, \<lparr>currentGroup = reset infos g1 input,
                           fetcherDone = (fd \<or> state = DONE)\<rparr>, out1, rest)
             else Inl AssertionFailed)
      else if \<not> isInitialized input then
        (if state = DONE then
           Inr (DONE, \<lparr>currentGroup = g, fetcherDone = (fd \<or> state = DONE)\<rparr>, out, rest)
         else Inl AssertionFailed)
      else produceLoop infos (reset infos g input) (fd \<or> state = DONE) out rest)"
  by (simp add: produceLoop.simps [of infos g fd out "(state, input) # rest"])

lemma produceLoop_consumes:
  "produceLoop infos g fd out fetcher = Inr (st, ex', out', fetcher') \<Longrightarrow> st \<noteq> DONE
     \<Longrightarrow> length fetcher' < length fetcher"
proof (induction fetcher arbitrary: g fd)
  case Nil
  then show ?case
    by (auto simp: produceLoop_Nil split: if_splits sum.splits)
next
  case (Cons a fetcher)
  obtain state input where a: "a = (state, input)" by (cases a)
  from Cons.prems show ?case
    unfolding a produceLoop_Cons
    by (auto split: if_splits sum.splits dest!: Cons.IH)
qed

lemma produceRow_consumes:
  "produceRow infos ex out fetcher = Inr (st, ex', out', fetcher') \<Longrightarrow> st \<noteq> DONE
     \<Longrightarrow> length fetcher' < length fetcher"
  by (auto simp: produceRow_def Let_def split: if_splits sum.splits dest: produceLoop_consumes)

subsection \<open>The caller of produceRow\<close>

text \<open>
  Modelled from the spec: the caller of \<^verbatim>\<open>produceRow\<close> is outside the sources at
  hand. It hands a fresh output row to every invocation, invokes again after a suspended
  or a has-more status, stops at the terminal status, and keeps every output row that
  was written.
\<close>

function runExecutor ::
  "'v Infos \<Rightarrow> 'v SortedCollectExecutor \<Rightarrow> 'v Fetcher \<Rightarrow> error + 'v OutputAqlItemRow list" where
  "runExecutor infos ex fetcher =
     (case produceRow infos ex freshOutput fetcher of
        Inl e \<Rightarrow> Inl e
      | Inr (state, ex1, out1, rest) \<Rightarrow>
          if state = DONE then Inr (if 0 < rowsWritten out1 then [out1] else [])
          else
            (case runExecutor infos ex1 rest of
               Inl e \<Rightarrow> Inl e
             | Inr outs \<Rightarrow> Inr ((if 0 < rowsWritten out1 then [out1] else []) @ outs)))"
  by pat_completeness auto
termination
  by (relation "measure (\<lambda>(infos, ex, fetcher). length fetcher)")
     (auto dest: produceRow_consumes)



subsection \<open>Runs of rows with equal group-key values\<close>

text \<open>
  The words of the specification: two rows have the same group key when every group-key
  column compares equal; the maximal runs of a stream are its maximal contiguous pieces
  in which each row has the same key as the row before it (\<open>runsAcc\<close> carries the run
  being built). The comparison is taken to be an equivalence (\<open>compareEquiv\<close>).
  \<open>noArray\<close> says that no array of collected values is built; \<open>openRun infos g cur\<close>
  says that the accumulator \<open>g\<close> holds the run \<open>cur\<close> and can be finalized.
\<close>

definition sameKey :: "'v Infos \<Rightarrow> 'v InputAqlItemRow \<Rightarrow> 'v InputAqlItemRow \<Rightarrow> bool" where
  "sameKey infos r r' =
     list_all (\<lambda>it. Compare infos (getValue r (snd it)) (getValue r' (snd it)) = 0)
       (getGroupRegisters infos)"

fun runsAcc :: "('a \<Rightarrow> 'a \<Rightarrow> bool) \<Rightarrow> 'a list \<Rightarrow> 'a list \<Rightarrow> 'a list list" where
  "runsAcc eq cur [] = [cur]"
| "runsAcc eq cur (x # xs) =
     (if eq (last cur) x then runsAcc eq (cur @ [x]) xs else cur # runsAcc eq [x] xs)"

fun runs :: "('a \<Rightarrow> 'a \<Rightarrow> bool) \<Rightarrow> 'a list \<Rightarrow> 'a list list" where
  "runs eq [] = []"
| "runs eq (x # xs) = runsAcc eq [x] xs"

definition compareEquiv :: "'v Infos \<Rightarrow> bool" where
  "compareEquiv infos \<longleftrightarrow>
     (\<forall>a. Compare infos a a = 0) \<and>
     (\<forall>a b. Compare infos a b = 0 \<longrightarrow> Compare infos b a = 0) \<and>
     (\<forall>a b c. Compare infos a b = 0 \<longrightarrow> Compare infos b c = 0 \<longrightarrow> Compare infos a c = 0)"

definition noArray :: "'v Infos \<Rightarrow> bool" where
  "noArray infos \<longleftrightarrow> getCollectRegister infos = MaxRegisterId \<or> getCount infos"

definition openRun :: "'v Infos \<Rightarrow> 'v CollectGroup \<Rightarrow> 'v InputAqlItemRow list \<Rightarrow> bool" where
  "openRun infos g cur \<longleftrightarrow>
     cur \<noteq> [] \<and> lastInputRow g = last cur \<and> isSameGroup infos g (last cur) \<and>
     length (groupValues g) = length (getGroupRegisters infos) \<and>
     length (aggregators g) = length (getAggregateTypes infos) \<and>
     (noArray infos \<or> isOpenArray (builder g))"

subsection \<open>Example configurations\<close>

text \<open>
  A three-way comparator on integer payloads, and executors over it: grouping on
  register 0 into register 2, summing register 1 into register 3, and collecting
  register 1 into register 4, as an array, as a count, and with no group register.
\<close>

definition compareInt :: "int AqlValue \<Rightarrow> int AqlValue \<Rightarrow> int" where
  "compareInt a b =
     (case a of
        EmptyValue \<Rightarrow> (case b of EmptyValue \<Rightarrow> 0 | Value y \<Rightarrow> - 1)
      | Value x \<Rightarrow>
          (case b of EmptyValue \<Rightarrow> 1 | Value y \<Rightarrow> (if x < y then - 1 else if x = y then 0 else 1)))"

definition exampleInfos :: "int Infos" where
  "exampleInfos =
     \<lparr>getAggregateTypes = [''SUM''], getAggregatedRegisters = [(3, 1)],
      getGroupRegisters = [(2, 0)], getCollectRegister = 4, getExpressionRegister = 1,
      getVariables = [], getExpressionVariable = Some ''v'', getCount = False,
      Compare = compareInt\<rparr>"

definition countInfos :: "int Infos" where
  "countInfos = exampleInfos\<lparr>getCount := True\<rparr>"

definition noGroupInfos :: "int Infos" where
  "noGroupInfos = exampleInfos\<lparr>getGroupRegisters := []\<rparr>"

definition exampleExecutor :: "int Infos \<Rightarrow> int SortedCollectExecutor" where
  "exampleExecutor infos = projr (SortedCollectExecutor_ctor infos)"

definition exampleFetcher :: "int Fetcher" where
  "exampleFetcher =
     [(HASMORE, InputRow [Value 1, Value 10]), (WAITING, InvalidInputRow),
      (HASMORE, InputRow [Value 1, Value 20]), (HASMORE, InputRow [Value 2, Value 30]),
      (DONE, InvalidInputRow)]"

definition exampleGroup :: "int Infos \<Rightarrow> int CollectGroup" where
  "exampleGroup infos =
     reset infos (currentGroup (exampleExecutor infos)) (InputRow [Value 1, Value 10])"

declare runExecutor.simps [simp del]

section \<open>Properties\<close>

subsection \<open>Group membership\<close>

lemma sameFrom_iff:
  "sameFrom infos gv input i its \<longleftrightarrow>
     (\<forall>k < length its. Compare infos (gv ! (i + k)) (getValue input (snd (its ! k))) = 0)"
proof (induction its arbitrary: i)
  case Nil
  show ?case by simp
next
  case (Cons it its)
  show ?case
    by (simp add: Cons.IH All_less_Suc2)
qed

text \<open>
  Claim C5. \<^verbatim>\<open>isSameGroup(row)\<close> is false for a row that is not initialized, and false
  as soon as one configured group-key column of the row compares unequal (a result other
  than 0 of the three-way comparison) to the stored group value at the same position,
  whatever the other columns hold; otherwise it is true. The function reads the
  accumulator and yields the Boolean only: the source assigns to no member, so the
  embedded function has no accumulator to return.
\<close>

theorem isSameGroup_iff:
  "isSameGroup infos g input \<longleftrightarrow>
     isInitialized input \<and>
     (\<forall>i < length (getGroupRegisters infos).
        Compare infos (groupValues g ! i) (getValue input (snd (getGroupRegisters infos ! i))) = 0)"
  by (simp add: isSameGroup_def sameFrom_iff)

subsection \<open>At most one group per invocation\<close>

lemma moveGroupValues_rowsWritten:
  "moveGroupValues i its g out = (g', out') \<Longrightarrow> rowsWritten out' = rowsWritten out"
  by (induction i its g out rule: moveGroupValues.induct)
     (auto simp: Let_def moveValueInto_def)

lemma stealFrom_rowsWritten:
  "stealFrom infos src j as out = (as', out') \<Longrightarrow> rowsWritten out' = rowsWritten out"
  by (induction infos src j as out arbitrary: as' out' rule: stealFrom.induct)
     (auto simp: Let_def moveValueInto_def split: prod.splits)

lemma writeToOutput_rowsWritten:
  "writeToOutput infos g out = Inr (g', out') \<Longrightarrow> rowsWritten out' = Suc (rowsWritten out)"
  by (auto simp: writeToOutput_def Let_def moveValueInto_def cloneValueInto_def
      split: if_splits prod.splits
      dest!: moveGroupValues_rowsWritten stealFrom_rowsWritten)

lemma produceLoop_rowsWritten:
  "produceLoop infos g fd out fetcher = Inr (st, ex', out', rest) \<Longrightarrow>
     (st = WAITING \<longrightarrow> out' = out) \<and>
     (st = HASMORE \<longrightarrow> rowsWritten out' = Suc (rowsWritten out)) \<and>
     rowsWritten out' \<le> Suc (rowsWritten out)"
proof (induction fetcher arbitrary: g fd)
  case Nil
  then show ?case
    by (auto simp: produceLoop_Nil split: if_splits sum.splits dest!: writeToOutput_rowsWritten)
next
  case (Cons a fetcher)
  obtain state input where a: "a = (state, input)" by (cases a)
  from Cons.prems show ?case
    unfolding a produceLoop_Cons
    by (auto split: if_splits sum.splits dest!: writeToOutput_rowsWritten Cons.IH)
qed

text \<open>
  Claim C8. One invocation of \<^verbatim>\<open>produceRow\<close> completes \<^verbatim>\<open>writeToOutput\<close> at most
  once on the output row it was given: the count of completed calls grows by at most one.
  A suspended invocation leaves the output row as it was, and an invocation that reports
  has-more has written exactly one group.
\<close>

theorem produceRow_at_most_one_row:
  "produceRow infos ex out fetcher = Inr (st, ex', out', rest) \<Longrightarrow>
     rowsWritten out' \<le> Suc (rowsWritten out) \<and>
     (st = WAITING \<longrightarrow> out' = out) \<and>
     (st = HASMORE \<longrightarrow> rowsWritten out' = Suc (rowsWritten out))"
  by (auto simp: produceRow_def Let_def split: if_splits sum.splits
      dest!: writeToOutput_rowsWritten produceLoop_rowsWritten)

subsection \<open>The state after construction, and simple facts about the operations\<close>

lemma ctor_state:
  assumes "SortedCollectExecutor_ctor infos = Inr ex"
  shows "fetcherDone ex = False"
    and "lastInputRow (currentGroup ex) = InvalidInputRow"
    and "builder (currentGroup ex) = freshBuilder"
    and "groupValues (currentGroup ex) = replicate (length (getGroupRegisters infos)) EmptyValue"
    and "countFlag (currentGroup ex) = getCount infos"
    and "aggregators (currentGroup ex) = map (\<lambda>n. aggReset (fromTypeString n)) (getAggregateTypes infos)"
    and "length (getAggregatedRegisters infos) = length (getAggregateTypes infos)"
    and "groupLength (currentGroup ex) = 0"
    and "clonedLog (currentGroup ex) = []"
    and "movedLog (currentGroup ex) = []"
    and "releasedLog (currentGroup ex) = []"
  using assms
  by (auto simp: SortedCollectExecutor_ctor_def CollectGroup_ctor_def initialize_def Let_def
      split: if_splits sum.splits)

lemma ctor_not_valid: "SortedCollectExecutor_ctor infos = Inr ex \<Longrightarrow> \<not> isValid (currentGroup ex)"
  by (simp add: isValid_def ctor_state)

lemma moveGroupValues_fields:
  "moveGroupValues i its g out = (g', out') \<Longrightarrow>
     lastInputRow g' = lastInputRow g \<and> builder g' = builder g \<and>
     aggregators g' = aggregators g \<and> groupLength g' = groupLength g \<and>
     countFlag g' = countFlag g \<and> clonedLog g' = clonedLog g \<and>
     releasedLog g' = releasedLog g"
  by (induction i its g out rule: moveGroupValues.induct) (auto simp: Let_def)

lemma writeToOutput_succeeds:
  assumes "isValid g"
    and "getCollectRegister infos = MaxRegisterId \<or> getCount infos \<or> isOpenArray (builder g)"
  shows "\<exists>g1 out1. writeToOutput infos g out = Inr (g1, out1)"
proof -
  obtain ga outa where m: "moveGroupValues 0 (getGroupRegisters infos) g out = (ga, outa)"
    by (cases "moveGroupValues 0 (getGroupRegisters infos) g out")
  obtain aggs outb where s: "stealFrom infos (lastInputRow g) 0 (aggregators g) outa = (aggs, outb)"
    by (cases "stealFrom infos (lastInputRow g) 0 (aggregators g) outa")
  from moveGroupValues_fields [OF m] assms show ?thesis
    by (auto simp: writeToOutput_def m s isValid_def Let_def)
qed

lemma addLine_lastInputRow [simp]: "lastInputRow (addLine infos g input) = input"
  by (simp add: addLine_def Let_def)

lemma addLine_isOpenArray [simp]:
  "isOpenArray (builder (addLine infos g input)) = isOpenArray (builder g)"
  by (simp add: addLine_def Let_def addItem_def)

lemma reset_lastInputRow [simp]: "lastInputRow (reset infos g input) = input"
  by (simp add: reset_def Let_def)

lemma reset_isOpenArray [simp]:
  "isOpenArray (builder (reset infos g input)) = isInitialized input"
  by (simp add: reset_def Let_def openArray_def freshBuilder_def)

lemma isValid_reset [simp]: "isValid (reset infos g input) = isInitialized input"
  by (simp add: isValid_def)

lemma isValid_addLine [simp]: "isValid (addLine infos g input) = isInitialized input"
  by (simp add: isValid_def)

lemma sameFrom_Nil_regs: "getGroupRegisters infos = [] \<Longrightarrow> isSameGroup infos g input = isInitialized input"
  by (simp add: isSameGroup_def)

subsection \<open>No group registers\<close>

text \<open>
  Claim C10. When the list of group registers is empty, \<^verbatim>\<open>isSameGroup\<close> is true for
  every initialized row, whatever the accumulator holds, the freshly constructed one
  included. So the first row of the stream is folded in by \<^verbatim>\<open>addLine\<close> on the
  constructed accumulator with no \<^verbatim>\<open>reset\<close> before it (the loop goes on, or finalizes
  at once when the row came with the exhausted status), and the builder of the collected
  values has not been opened as an array.
\<close>

theorem empty_group_registers_fold_first_row:
  assumes "getGroupRegisters infos = []"
    and "SortedCollectExecutor_ctor infos = Inr ex"
    and "isInitialized input"
  shows "isSameGroup infos g input \<and>
    produceRow infos ex out ((HASMORE, input) # rest) =
      produceLoop infos (addLine infos (currentGroup ex) input) False out rest \<and>
    produceRow infos ex out ((DONE, input) # rest) =
      (case writeToOutput infos (addLine infos (currentGroup ex) input) out of
         Inl e \<Rightarrow> Inl e
       | Inr (g1, out1) \<Rightarrow>
           Inr (DONE, \<lparr>currentGroup = reset infos g1 InvalidInputRow, fetcherDone = True\<rparr>,
                out1, rest)) \<and>
    \<not> isOpenArray (builder (addLine infos (currentGroup ex) input))"
  using assms
  by (simp add: sameFrom_Nil_regs produceRow_def produceLoop_Cons ctor_state freshBuilder_def
      split: sum.splits)

subsection \<open>A row that starts a new group\<close>

text \<open>
  What holds of the branch taken when the fetched answer is not of the same group and a
  valid group is open: the loop of \<^verbatim>\<open>produceRow\<close> calls \<^verbatim>\<open>writeToOutput\<close> on the open
  group (whose failure is the failure of the invocation), starts the new run by
  \<^verbatim>\<open>reset\<close> on the fetched row, and reports has-more if that row is initialized and
  done if it is not; likewise for a valid group pending after exhaustion.
  \<^verbatim>\<open>writeToOutput\<close> succeeds whenever there is no collect register, or the mode is
  count, or the array of collected values is open, which is what it asserts.
\<close>

lemma new_group_branch:
  assumes "isValid g"
  shows "(\<not> isSameGroup infos g input \<and> state \<noteq> WAITING \<and> (isInitialized input \<or> state = DONE) \<longrightarrow>
       produceLoop infos g fd out ((state, input) # rest) =
         (case writeToOutput infos g out of
            Inl e \<Rightarrow> Inl e
          | Inr (g1, out1) \<Rightarrow>
              Inr (if isInitialized input then HASMORE else DONE,
                   \<lparr>currentGroup = reset infos g1 input, fetcherDone = (fd \<or> state = DONE)\<rparr>,
                   out1, rest))) \<and>
    isValid (reset infos g1 input) = isInitialized input \<and>
    produceRow infos \<lparr>currentGroup = g, fetcherDone = True\<rparr> out fetcher =
      (case writeToOutput infos g out of
         Inl e \<Rightarrow> Inl e
       | Inr (g1, out1) \<Rightarrow>
           Inr (DONE, \<lparr>currentGroup = reset infos g1 InvalidInputRow, fetcherDone = True\<rparr>,
                out1, fetcher)) \<and>
    (getCollectRegister infos = MaxRegisterId \<or> getCount infos \<or> isOpenArray (builder g) \<longrightarrow>
       (\<exists>g1 out1. writeToOutput infos g out = Inr (g1, out1) \<and>
          rowsWritten out1 = Suc (rowsWritten out)))"
proof (intro conjI impI)
  assume "getCollectRegister infos = MaxRegisterId \<or> getCount infos \<or> isOpenArray (builder g)"
  from writeToOutput_succeeds [OF assms this]
  obtain g1 out1 where w: "writeToOutput infos g out = Inr (g1, out1)"
    by blast
  with writeToOutput_rowsWritten [OF w]
  show "\<exists>g1 out1. writeToOutput infos g out = Inr (g1, out1) \<and>
      rowsWritten out1 = Suc (rowsWritten out)"
    by blast
qed (use assms in \<open>auto simp: produceLoop_Cons produceRow_def Let_def split: sum.splits\<close>)

subsection \<open>The caller's view\<close>

lemma produceRow_WAITING:
  "\<not> (fetcherDone ex \<and> isValid (currentGroup ex)) \<Longrightarrow>
     produceRow infos ex out ((WAITING, input) # rest) = Inr (WAITING, ex, out, rest)"
  by (auto simp: produceRow_def produceLoop_Cons)

lemma runExecutor_Inl:
  "produceRow infos ex freshOutput fetcher = Inl e \<Longrightarrow> runExecutor infos ex fetcher = Inl e"
  by (subst runExecutor.simps) simp

lemma runExecutor_DONE:
  "produceRow infos ex freshOutput fetcher = Inr (DONE, ex1, out1, rest) \<Longrightarrow>
     runExecutor infos ex fetcher = Inr (if 0 < rowsWritten out1 then [out1] else [])"
  by (subst runExecutor.simps) simp

lemma runExecutor_more:
  "produceRow infos ex freshOutput fetcher = Inr (state, ex1, out1, rest) \<Longrightarrow> state \<noteq> DONE \<Longrightarrow>
     runExecutor infos ex fetcher =
       (case runExecutor infos ex1 rest of
          Inl e \<Rightarrow> Inl e
        | Inr outs \<Rightarrow> Inr ((if 0 < rowsWritten out1 then [out1] else []) @ outs))"
  by (subst runExecutor.simps) simp

lemma produceRow_no_rows_Nil:
  "\<not> isValid (currentGroup ex) \<Longrightarrow>
     produceRow infos ex out [] = Inr (DONE, ex\<lparr>fetcherDone := True\<rparr>, out, [])"
  by (simp add: produceRow_def produceLoop_Nil)

lemma produceRow_no_rows_DONE:
  "\<not> isValid (currentGroup ex) \<Longrightarrow>
     produceRow infos ex out ((DONE, InvalidInputRow) # rest) =
       Inr (DONE, ex\<lparr>fetcherDone := True\<rparr>, out, rest)"
  by (simp add: produceRow_def produceLoop_Cons)

lemma runExecutor_no_rows:
  "\<not> isValid (currentGroup ex) \<Longrightarrow> wfFetcher fetcher \<Longrightarrow> rowsOf fetcher = [] \<Longrightarrow>
     runExecutor infos ex fetcher = Inr []"
proof (induction fetcher)
  case Nil
  then show ?case
    by (simp add: runExecutor_DONE [OF produceRow_no_rows_Nil] freshOutput_def)
next
  case (Cons a fetcher)
  obtain state input where a: "a = (state, input)" by (cases a)
  consider "state = DONE" | "state = HASMORE" | "state = WAITING"
    by (cases state) auto
  then show ?case
  proof cases
    case 1
    from Cons.prems a 1 have "input = InvalidInputRow"
      by (cases input) (simp_all add: rowsOf_def)
    with Cons.prems(1) a 1 show ?thesis
      by (simp add: runExecutor_DONE [OF produceRow_no_rows_DONE] freshOutput_def)
  next
    case 2
    with Cons.prems a show ?thesis by (simp add: rowsOf_def)
  next
    case 3
    from Cons.prems a 3 have "runExecutor infos ex fetcher = Inr []"
      by (intro Cons.IH) (simp_all add: rowsOf_def)
    moreover from Cons.prems(1) have "produceRow infos ex freshOutput ((WAITING, input) # fetcher)
        = Inr (WAITING, ex, freshOutput, fetcher)"
      by (intro produceRow_WAITING) simp
    ultimately show ?thesis
      using a 3 by (simp add: runExecutor_more freshOutput_def)
  qed
qed

lemma withoutWaiting_no_rows:
  "wfFetcher fetcher \<Longrightarrow> rowsOf fetcher = [] \<Longrightarrow>
     withoutWaiting fetcher = [] \<or> withoutWaiting fetcher = [(DONE, InvalidInputRow)]"
proof (induction fetcher rule: wfFetcher.induct)
  case (4 input rest)
  then show ?case
    by (cases input) (simp_all add: withoutWaiting_def rowsOf_def)
qed (simp_all add: withoutWaiting_def rowsOf_def)

text \<open>
  Claim C9. For a row source that delivers no row at all (it may suspend any number of
  times before it reports exhaustion), the invocations of \<^verbatim>\<open>produceRow\<close> on the
  constructed executor end with no output row written, and the invocation that meets the
  exhausted source returns the terminal status with the output row untouched.
\<close>

theorem empty_input_no_output:
  assumes "SortedCollectExecutor_ctor infos = Inr ex"
    and "wfFetcher fetcher" and "rowsOf fetcher = []"
  shows "runExecutor infos ex fetcher = Inr [] \<and>
    produceRow infos ex out (withoutWaiting fetcher) =
      Inr (DONE, ex\<lparr>fetcherDone := True\<rparr>, out, [])"
  using withoutWaiting_no_rows [OF assms(2,3)] ctor_not_valid [OF assms(1)]
    runExecutor_no_rows [OF _ assms(2,3), of ex infos]
  by (auto simp: produceRow_no_rows_Nil produceRow_no_rows_DONE)


subsection \<open>Counting\<close>

lemma addLine_countFlag [simp]: "countFlag (addLine infos g input) = countFlag g"
  by (simp add: addLine_def Let_def)

lemma reset_countFlag [simp]: "countFlag (reset infos g input) = countFlag g"
  by (simp add: reset_def Let_def)

lemma addLine_groupLength:
  "getCollectRegister infos \<noteq> MaxRegisterId \<Longrightarrow> countFlag g \<Longrightarrow>
     groupLength (addLine infos g input) = groupLength g + 1"
  by (simp add: addLine_def Let_def)

lemma reset_groupLength:
  "getCollectRegister infos \<noteq> MaxRegisterId \<Longrightarrow> countFlag g \<Longrightarrow> isInitialized input \<Longrightarrow>
     groupLength (reset infos g input) = 1"
  by (simp add: reset_def Let_def addLine_groupLength)

lemma foldl_addLine_countFlag [simp]:
  "countFlag (foldl (addLine infos) g rs) = countFlag g"
  by (induction rs arbitrary: g) simp_all

lemma foldl_addLine_groupLength:
  "getCollectRegister infos \<noteq> MaxRegisterId \<Longrightarrow> countFlag g \<Longrightarrow>
     groupLength (foldl (addLine infos) g rs) = groupLength g + word_of_nat (length rs)"
  by (induction rs arbitrary: g) (simp_all add: addLine_groupLength)

lemma foldl_addLine_lastInputRow:
  "lastInputRow (foldl (addLine infos) g rs) = (if rs = [] then lastInputRow g else last rs)"
  by (induction rs arbitrary: g) simp_all

lemma writeToOutput_count:
  assumes "getCollectRegister infos \<noteq> MaxRegisterId" and "getCount infos" and "isValid g"
  shows "\<exists>g' out'. writeToOutput infos g out = Inr (g', out') \<and>
           last (cells out') = (getCollectRegister infos, UIntValue (groupLength g))"
proof -
  obtain ga outa where m: "moveGroupValues 0 (getGroupRegisters infos) g out = (ga, outa)"
    by (cases "moveGroupValues 0 (getGroupRegisters infos) g out")
  obtain aggs outb where s: "stealFrom infos (lastInputRow g) 0 (aggregators g) outa = (aggs, outb)"
    by (cases "stealFrom infos (lastInputRow g) 0 (aggregators g) outa")
  from moveGroupValues_fields [OF m] assms show ?thesis
    by (simp add: writeToOutput_def m s isValid_def Let_def cloneValueInto_def)
qed

text \<open>
  Claim C4. In count mode with a collect register configured, take a run opened by
  \<^verbatim>\<open>reset\<close> on a row \<open>r0\<close> and continued by \<^verbatim>\<open>addLine\<close> on the rows \<open>rs\<close>. Then
  \<^verbatim>\<open>writeToOutput\<close> succeeds and the value it writes into the collect register, the
  last one written, is the number of rows of the run, \<open>r0\<close> counted as the first: the
  member \<^verbatim>\<open>groupLength\<close> is a 64-bit counter, it holds that number as a 64-bit word,
  and it reads back as that very number for every run of fewer than \<open>2 ^ 64\<close> rows.
\<close>

theorem count_equals_rows_of_run:
  assumes "getCollectRegister infos \<noteq> MaxRegisterId"
    and "getCount infos" and "countFlag g"
    and "isInitialized r0" and "list_all isInitialized rs"
  shows "\<exists>g' out'.
    writeToOutput infos (foldl (addLine infos) (reset infos g r0) rs) out = Inr (g', out') \<and>
    last (cells out') = (getCollectRegister infos, UIntValue (word_of_nat (Suc (length rs)))) \<and>
    (Suc (length rs) < 2 ^ 64 \<longrightarrow>
       unat (word_of_nat (Suc (length rs)) :: 64 word) = Suc (length rs))"
proof -
  let ?g = "foldl (addLine infos) (reset infos g r0) rs"
  have len: "groupLength ?g = word_of_nat (Suc (length rs))"
    using assms by (simp add: foldl_addLine_groupLength reset_groupLength)
  have "isValid ?g"
    using assms by (cases "rs = []") (simp_all add: isValid_def foldl_addLine_lastInputRow list_all_iff)
  from writeToOutput_count [OF assms(1,2) this, of out]
  obtain g' out' where w: "writeToOutput infos ?g out = Inr (g', out')"
    and c: "last (cells out') = (getCollectRegister infos, UIntValue (groupLength ?g))"
    by blast
  have u: "unat (word_of_nat n :: 64 word) = n" if "n < 2 ^ 64" for n :: nat
    using that by (simp add: unat_of_nat)
  from w c [unfolded len] u [of "Suc (length rs)"] show ?thesis
    by blast
qed

subsection \<open>Aggregators\<close>

lemma pendingFrom_append_Reduce:
  "pendingFrom acc (cs @ [AggReduce v]) = pendingFrom acc cs @ [v]"
  by (induction acc cs rule: pendingFrom.induct) simp_all

lemma pendingFrom_append_Reset: "pendingFrom acc (cs @ [AggReset]) = []"
  by (induction acc cs rule: pendingFrom.induct) simp_all

lemma pendingFrom_append_Reduces:
  "pendingFrom acc (cs @ map AggReduce vs) = pendingFrom acc cs @ vs"
proof (induction vs rule: rev_induct)
  case Nil
  show ?case by simp
next
  case (snoc v vs)
  then show ?case
    using pendingFrom_append_Reduce [of acc "cs @ map AggReduce vs" v] by simp
qed

lemma pendingValues_run:
  "pendingValues (h @ AggReset # map AggReduce vs) = vs"
  using pendingFrom_append_Reduces [of "[]" "h @ [AggReset]" vs]
  by (simp add: pendingValues_def pendingFrom_append_Reset)

lemma length_reduceFrom [simp]: "length (reduceFrom infos input j as) = length as"
  by (induction as arbitrary: j) simp_all

lemma nth_reduceFrom:
  "k < length as \<Longrightarrow>
     reduceFrom infos input j as ! k =
       aggReduce (as ! k) (getValue input (snd (getAggregatedRegisters infos ! (j + k))))"
proof (induction as arbitrary: j k)
  case Nil
  then show ?case by simp
next
  case (Cons a as)
  then show ?case by (cases k) simp_all
qed

lemma addLine_aggregators:
  "aggregators (addLine infos g input) = reduceFrom infos input 0 (aggregators g)"
  by (simp add: addLine_def Let_def)

lemma reset_aggregators:
  "isInitialized input \<Longrightarrow>
     aggregators (reset infos g input) = reduceFrom infos input 0 (map aggReset (aggregators g))"
  by (simp add: reset_def Let_def addLine_aggregators)

lemma foldl_addLine_length_aggregators [simp]:
  "length (aggregators (foldl (addLine infos) g rs)) = length (aggregators g)"
  by (induction rs arbitrary: g) (simp_all add: addLine_aggregators)

lemma foldl_addLine_aggregator:
  "j < length (aggregators g) \<Longrightarrow>
     aggType (aggregators (foldl (addLine infos) g rs) ! j) = aggType (aggregators g ! j) \<and>
     calls (aggregators (foldl (addLine infos) g rs) ! j) =
       calls (aggregators g ! j)
         @ map (\<lambda>r. AggReduce (getValue r (snd (getAggregatedRegisters infos ! j)))) rs"
proof (induction rs arbitrary: g)
  case Nil
  show ?case by simp
next
  case (Cons r rs)
  from Cons.prems have "j < length (aggregators (addLine infos g r))"
    by (simp add: addLine_aggregators)
  from Cons.IH [OF this] Cons.prems show ?case
    by (simp add: addLine_aggregators nth_reduceFrom aggReduce_def)
qed

lemma stealFrom_result:
  "stealFrom infos src j as out = (as', out') \<Longrightarrow>
     as' = map (\<lambda>a. snd (aggStealValue a)) as \<and>
     cells out' = cells out
       @ map (\<lambda>k. (fst (getAggregatedRegisters infos ! (j + k)), fst (aggStealValue (as ! k))))
           [0..<length as]"
proof (induction infos src j as out arbitrary: as' out' rule: stealFrom.induct)
  case (1 infos src j out)
  then show ?case by simp
next
  case (2 infos src j a as out)
  obtain val a1 where sv: "aggStealValue a = (val, a1)"
    by (cases "aggStealValue a")
  let ?out1 = "moveValueInto (fst (getAggregatedRegisters infos ! j)) src val out"
  obtain as1 out2 where rec: "stealFrom infos src (Suc j) as ?out1 = (as1, out2)"
    by (cases "stealFrom infos src (Suc j) as ?out1")
  from "2.prems" sv rec have eq: "as' = a1 # as1" "out' = out2"
    by simp_all
  from "2.IH" [OF refl sv [symmetric] refl rec]
  have ih: "as1 = map (\<lambda>a. snd (aggStealValue a)) as"
    "cells out2 = cells ?out1
       @ map (\<lambda>k. (fst (getAggregatedRegisters infos ! (Suc j + k)), fst (aggStealValue (as ! k))))
           [0..<length as]"
    by simp_all
  have "map (\<lambda>k. (fst (getAggregatedRegisters infos ! (j + k)), fst (aggStealValue ((a # as) ! k))))
          [0..<length (a # as)]
      = (fst (getAggregatedRegisters infos ! j), val)
        # map (\<lambda>k. (fst (getAggregatedRegisters infos ! (Suc j + k)), fst (aggStealValue (as ! k))))
            [0..<length as]"
    by (simp add: upt_rec [of 0 "Suc (length as)"] map_Suc_upt [symmetric] sv del: upt_Suc)
  with eq ih sv show ?case
    by (simp add: moveValueInto_def)
qed


lemma writeToOutput_aggregators:
  assumes "writeToOutput infos g out = Inr (g', out')" and "k < length (aggregators g)"
  shows "aggregators g' = map (\<lambda>a. snd (aggStealValue a)) (aggregators g)"
    and "(fst (getAggregatedRegisters infos ! k), fst (aggStealValue (aggregators g ! k)))
           \<in> set (cells out')"
proof -
  obtain ga outa where m: "moveGroupValues 0 (getGroupRegisters infos) g out = (ga, outa)"
    by (cases "moveGroupValues 0 (getGroupRegisters infos) g out")
  obtain aggs outb where s: "stealFrom infos (lastInputRow g) 0 (aggregators g) outa = (aggs, outb)"
    by (cases "stealFrom infos (lastInputRow g) 0 (aggregators g) outa")
  note f = moveGroupValues_fields [OF m]
  note r = stealFrom_result [OF s]
  from assms(2) have "(fst (getAggregatedRegisters infos ! k), fst (aggStealValue (aggregators g ! k)))
      \<in> set (cells outb)"
    using r by (auto simp: image_iff intro!: bexI [of _ k])
  moreover from assms(1) f have "aggregators g' = aggs \<and> set (cells outb) \<subseteq> set (cells out')"
    by (auto simp: writeToOutput_def m s Let_def cloneValueInto_def moveValueInto_def
        split: if_splits)
  ultimately show "aggregators g' = map (\<lambda>a. snd (aggStealValue a)) (aggregators g)"
    and "(fst (getAggregatedRegisters infos ! k), fst (aggStealValue (aggregators g ! k)))
           \<in> set (cells out')"
    using r by auto
qed

lemma run_aggregator:
  assumes "writeToOutput infos (foldl (addLine infos) g rs) out = Inr (g', out')"
    and "j < length (aggregators g)"
  shows "length (aggregators g') = length (aggregators g)"
    and "calls (aggregators g' ! j) =
      calls (aggregators g ! j)
        @ map (\<lambda>r. AggReduce (getValue r (snd (getAggregatedRegisters infos ! j)))) rs
        @ [AggSteal]"
    and "(fst (getAggregatedRegisters infos ! j),
          Stolen (aggType (aggregators g ! j))
            (pendingValues (calls (aggregators g ! j)
               @ map (\<lambda>r. AggReduce (getValue r (snd (getAggregatedRegisters infos ! j)))) rs)))
      \<in> set (cells out')"
proof -
  let ?run = "foldl (addLine infos) g rs"
  have jg: "j < length (aggregators ?run)"
    using assms(2) by simp
  note a = foldl_addLine_aggregator [OF assms(2), of infos rs]
  note w = writeToOutput_aggregators [OF assms(1) jg]
  from w(1) show "length (aggregators g') = length (aggregators g)"
    by simp
  from w(1) jg a show "calls (aggregators g' ! j) =
      calls (aggregators g ! j)
        @ map (\<lambda>r. AggReduce (getValue r (snd (getAggregatedRegisters infos ! j)))) rs
        @ [AggSteal]"
    by (simp add: aggStealValue_def)
  from w(2) a show "(fst (getAggregatedRegisters infos ! j),
          Stolen (aggType (aggregators g ! j))
            (pendingValues (calls (aggregators g ! j)
               @ map (\<lambda>r. AggReduce (getValue r (snd (getAggregatedRegisters infos ! j)))) rs)))
      \<in> set (cells out')"
    by (simp add: aggStealValue_def)
qed

text \<open>
  Claim C6. For a run that \<^verbatim>\<open>writeToOutput\<close> finalizes, whether it was opened by
  \<^verbatim>\<open>reset\<close> on its first row or by \<^verbatim>\<open>addLine\<close> on the constructed accumulator, the
  \<open>j\<close>-th aggregator has received, after the reset that precedes the run, exactly one
  \<^verbatim>\<open>reduce\<close> per row of the run, in order, with the value of its bound source
  register, and then exactly one \<^verbatim>\<open>stealValue\<close>; the stolen result, which is the
  aggregate of exactly those values, is in the output under the aggregator's output
  register.
\<close>

theorem aggregators_reduce_per_row_steal_once:
  "(isInitialized r0 \<and> j < length (aggregators g) \<and>
    writeToOutput infos (foldl (addLine infos) (reset infos g r0) rs) out = Inr (g', out') \<longrightarrow>
      length (aggregators g') = length (aggregators g) \<and>
      calls (aggregators g' ! j) =
        calls (aggregators g ! j) @ AggReset
          # map (\<lambda>r. AggReduce (getValue r (snd (getAggregatedRegisters infos ! j)))) (r0 # rs)
          @ [AggSteal] \<and>
      (fst (getAggregatedRegisters infos ! j),
       Stolen (aggType (aggregators g ! j))
         (map (\<lambda>r. getValue r (snd (getAggregatedRegisters infos ! j))) (r0 # rs)))
        \<in> set (cells out')) \<and>
   (SortedCollectExecutor_ctor infos = Inr ex \<and> j < length (getAggregateTypes infos) \<and>
    writeToOutput infos (foldl (addLine infos) (currentGroup ex) rs) out = Inr (g', out') \<longrightarrow>
      length (aggregators g') = length (getAggregateTypes infos) \<and>
      calls (aggregators g' ! j) =
        AggReset
          # map (\<lambda>r. AggReduce (getValue r (snd (getAggregatedRegisters infos ! j)))) rs
          @ [AggSteal] \<and>
      (fst (getAggregatedRegisters infos ! j),
       Stolen (getAggregateTypes infos ! j)
         (map (\<lambda>r. getValue r (snd (getAggregatedRegisters infos ! j))) rs))
        \<in> set (cells out'))"
proof (intro conjI impI; elim conjE)
  let ?reg = "snd (getAggregatedRegisters infos ! j)"
  {
    assume r0: "isInitialized r0" and j: "j < length (aggregators g)"
      and w: "writeToOutput infos (foldl (addLine infos) (reset infos g r0) rs) out = Inr (g', out')"
    have j0: "j < length (aggregators (reset infos g r0))"
      using r0 j by (simp add: reset_aggregators)
    have a0: "aggregators (reset infos g r0) ! j
        = aggReduce (aggReset (aggregators g ! j)) (getValue r0 ?reg)"
      using r0 j by (simp add: reset_aggregators nth_reduceFrom)
    have pv: "pendingValues (calls (aggregators g ! j) @ AggReset
          # map (\<lambda>r. AggReduce (getValue r ?reg)) (r0 # rs))
        = map (\<lambda>r. getValue r ?reg) (r0 # rs)"
      using pendingValues_run [of "calls (aggregators g ! j)" "map (\<lambda>r. getValue r ?reg) (r0 # rs)"]
      by (simp add: comp_def)
    note run = run_aggregator [OF w j0]
    from run(1) r0 show "length (aggregators g') = length (aggregators g)"
      by (simp add: reset_aggregators)
    from run(2) a0 show "calls (aggregators g' ! j) =
        calls (aggregators g ! j) @ AggReset
          # map (\<lambda>r. AggReduce (getValue r ?reg)) (r0 # rs) @ [AggSteal]"
      by (simp add: aggReduce_def aggReset_def)
    from run(3) a0 pv show "(fst (getAggregatedRegisters infos ! j),
       Stolen (aggType (aggregators g ! j)) (map (\<lambda>r. getValue r ?reg) (r0 # rs)))
        \<in> set (cells out')"
      by (simp add: aggReduce_def aggReset_def)
  }
  {
    assume c: "SortedCollectExecutor_ctor infos = Inr ex" and j: "j < length (getAggregateTypes infos)"
      and w: "writeToOutput infos (foldl (addLine infos) (currentGroup ex) rs) out = Inr (g', out')"
    have j0: "j < length (aggregators (currentGroup ex))"
      using j by (simp add: ctor_state(6) [OF c])
    have a0: "aggregators (currentGroup ex) ! j = aggReset (fromTypeString (getAggregateTypes infos ! j))"
      using j by (simp add: ctor_state(6) [OF c])
    have pv: "pendingValues ([] @ AggReset # map (\<lambda>r. AggReduce (getValue r ?reg)) rs)
        = map (\<lambda>r. getValue r ?reg) rs"
      using pendingValues_run [of "[]" "map (\<lambda>r. getValue r ?reg) rs"]
      by (simp add: comp_def)
    note run = run_aggregator [OF w j0]
    from run(1) show "length (aggregators g') = length (getAggregateTypes infos)"
      by (simp add: ctor_state(6) [OF c])
    from run(2) a0 show "calls (aggregators g' ! j) =
        AggReset # map (\<lambda>r. AggReduce (getValue r ?reg)) rs @ [AggSteal]"
      by (simp add: aggReset_def fromTypeString_def)
    from run(3) a0 pv show "(fst (getAggregatedRegisters infos ! j),
       Stolen (getAggregateTypes infos ! j) (map (\<lambda>r. getValue r ?reg) rs))
        \<in> set (cells out')"
      by (simp add: aggReset_def fromTypeString_def)
  }
qed


subsection \<open>Ownership of the group-key values\<close>

lemma owned_update_Empty:
  "i < length gv \<Longrightarrow>
     mset (owned (gv[i := EmptyValue])) + mset (owned [gv ! i]) = mset (owned gv)"
proof (induction gv arbitrary: i)
  case Nil
  then show ?case by simp
next
  case (Cons v gv)
  then show ?case
    by (cases i) (simp_all add: owned_def)
qed

lemma moveGroupValues_slots:
  "moveGroupValues i its g out = (g', out') \<Longrightarrow> i + length its \<le> length (groupValues g) \<Longrightarrow>
     length (groupValues g') = length (groupValues g) \<and>
     (\<forall>k < length (groupValues g).
        groupValues g' ! k = (if i \<le> k \<and> k < i + length its then EmptyValue else groupValues g ! k)) \<and>
     mset (owned (groupValues g')) + mset (movedLog g') =
       mset (owned (groupValues g)) + mset (movedLog g)"
proof (induction i its g out rule: moveGroupValues.induct)
  case (1 i g out)
  then show ?case by auto
next
  case (2 i it its g out)
  let ?g1 = "g\<lparr>groupValues := (groupValues g)[i := EmptyValue],
               movedLog := movedLog g @ owned [groupValues g ! i]\<rparr>"
  let ?out1 = "moveValueInto (fst it) (lastInputRow g) (Moved (groupValues g ! i)) out"
  from "2.prems" have rec: "moveGroupValues (Suc i) its ?g1 ?out1 = (g', out')"
    by (simp add: Let_def)
  from "2.prems" have i: "i < length (groupValues g)" by simp
  from "2.IH" [OF refl refl refl rec] "2.prems"(2)
  have ih: "length (groupValues g') = length (groupValues g)"
    "\<forall>k < length (groupValues g).
        groupValues g' ! k =
          (if Suc i \<le> k \<and> k < Suc i + length its then EmptyValue
           else (groupValues g)[i := EmptyValue] ! k)"
    "mset (owned (groupValues g')) + mset (movedLog g') =
       mset (owned ((groupValues g)[i := EmptyValue])) + mset (movedLog g @ owned [groupValues g ! i])"
    by simp_all
  have "\<forall>k < length (groupValues g).
        groupValues g' ! k =
          (if i \<le> k \<and> k < i + length (it # its) then EmptyValue else groupValues g ! k)"
  proof (intro allI impI)
    fix k assume k: "k < length (groupValues g)"
    with ih(2) show "groupValues g' ! k =
          (if i \<le> k \<and> k < i + length (it # its) then EmptyValue else groupValues g ! k)"
      by (cases "k = i") (auto simp: nth_list_update)
  qed
  moreover from ih(3) owned_update_Empty [OF i]
  have "mset (owned (groupValues g')) + mset (movedLog g') =
       mset (owned (groupValues g)) + mset (movedLog g)"
    by (simp add: ac_simps)
  ultimately show ?case using ih(1) by simp
qed

lemma owned_all_Empty:
  "(\<forall>k < length gv. gv ! k = EmptyValue) \<Longrightarrow> owned gv = []"
  by (auto simp: owned_def filter_empty_conv in_set_conv_nth)

lemma length_cloneFrom [simp]: "length (cloneFrom input i its gv) = length gv"
  by (induction its arbitrary: i gv) simp_all

lemma nth_cloneFrom:
  "k < length gv \<Longrightarrow>
     cloneFrom input i its gv ! k =
       (if i \<le> k \<and> k < i + length its then getValue input (snd (its ! (k - i))) else gv ! k)"
proof (induction its arbitrary: i gv)
  case Nil
  show ?case by auto
next
  case (Cons it its)
  from Cons.prems have "k < length (gv[i := getValue input (snd it)])" by simp
  from Cons.IH [OF this, of "Suc i"] Cons.prems show ?case
    by (cases "k = i") (auto simp: nth_list_update Suc_diff_le)
qed

lemma cloneFrom_full:
  "length gv = length regs \<Longrightarrow>
     cloneFrom input 0 regs gv = map (\<lambda>it. getValue input (snd it)) regs"
  by (rule nth_equalityI) (simp_all add: nth_cloneFrom)


lemma addLine_ownership_fields [simp]:
  "groupValues (addLine infos g input) = groupValues g"
  "clonedLog (addLine infos g input) = clonedLog g"
  "movedLog (addLine infos g input) = movedLog g"
  "releasedLog (addLine infos g input) = releasedLog g"
  by (simp_all add: addLine_def Let_def)

lemma ctor_ownershipInv:
  "SortedCollectExecutor_ctor infos = Inr ex \<Longrightarrow> ownershipInv infos (currentGroup ex)"
  by (simp add: ownershipInv_def ctor_state owned_def)

lemma addLine_ownershipInv:
  "ownershipInv infos g \<Longrightarrow> isInitialized input \<Longrightarrow> ownershipInv infos (addLine infos g input)"
  by (simp add: ownershipInv_def)

lemma writeToOutput_slots:
  assumes "writeToOutput infos g out = Inr (g1, out1)"
    and "length (groupValues g) = length (getGroupRegisters infos)"
  shows "length (groupValues g1) = length (groupValues g)"
    and "\<forall>v \<in> set (groupValues g1). v = EmptyValue"
    and "owned (groupValues g1) = []"
    and "mset (movedLog g1) = mset (movedLog g) + mset (owned (groupValues g))"
    and "clonedLog g1 = clonedLog g" and "releasedLog g1 = releasedLog g"
    and "isValid g1"
proof -
  obtain ga outa where m: "moveGroupValues 0 (getGroupRegisters infos) g out = (ga, outa)"
    by (cases "moveGroupValues 0 (getGroupRegisters infos) g out")
  obtain aggs outb where s: "stealFrom infos (lastInputRow g) 0 (aggregators g) outa = (aggs, outb)"
    by (cases "stealFrom infos (lastInputRow g) 0 (aggregators g) outa")
  note f = moveGroupValues_fields [OF m]
  from moveGroupValues_slots [OF m] assms(2)
  have sl: "length (groupValues ga) = length (groupValues g)"
    "\<forall>k < length (groupValues g). groupValues ga ! k = EmptyValue"
    "mset (owned (groupValues ga)) + mset (movedLog ga) = mset (owned (groupValues g)) + mset (movedLog g)"
    by simp_all
  from sl(1,2) have e: "owned (groupValues ga) = []"
    by (intro owned_all_Empty) simp
  from assms(1) f have g1: "groupValues g1 = groupValues ga" "movedLog g1 = movedLog ga"
    "clonedLog g1 = clonedLog g" "releasedLog g1 = releasedLog g" "isValid g1"
    by (auto simp: writeToOutput_def m s Let_def isValid_def split: if_splits)
  from g1 show "clonedLog g1 = clonedLog g" "releasedLog g1 = releasedLog g" "isValid g1"
    by simp_all
  from g1 sl show "length (groupValues g1) = length (groupValues g)"
    by simp
  from g1 sl(1,2) show "\<forall>v \<in> set (groupValues g1). v = EmptyValue"
    by (auto simp: in_set_conv_nth)
  from g1 e show "owned (groupValues g1) = []"
    by simp
  from g1 sl(3) e show "mset (movedLog g1) = mset (movedLog g) + mset (owned (groupValues g))"
    by (simp add: ac_simps)
qed

lemma owned_update_0: "owned gv = [] \<Longrightarrow> owned (gv[0 := EmptyValue]) = []"
  by (cases gv) (simp_all add: owned_def split: if_splits)

lemma reset_cleared:
  assumes "owned (groupValues g) = []"
    and "length (groupValues g) = length (getGroupRegisters infos)"
  shows "releasedLog (reset infos g input) = releasedLog g"
    and "movedLog (reset infos g input) = movedLog g"
    and "length (groupValues (reset infos g input)) = length (groupValues g)"
    and "mset (clonedLog (reset infos g input)) =
           mset (clonedLog g) + mset (owned (groupValues (reset infos g input)))"
    and "isInitialized input \<or> owned (groupValues (reset infos g input)) = []"
  using assms
  by (auto simp: reset_def Let_def cloneFrom_full owned_update_0)

lemma reset_ownershipInv:
  assumes "length (groupValues g) = length (getGroupRegisters infos)"
    and "owned (groupValues g) = []" and "releasedLog g = []"
    and "mset (clonedLog g) = mset (movedLog g)"
  shows "ownershipInv infos (reset infos g input)"
  using reset_cleared [OF assms(2,1), of input] assms
  by (auto simp: ownershipInv_def)

lemma write_reset_ownershipInv:
  assumes "ownershipInv infos g" and "writeToOutput infos g out = Inr (g1, out1)"
  shows "ownershipInv infos (reset infos g1 input)"
proof -
  from assms(1) have len: "length (groupValues g) = length (getGroupRegisters infos)"
    by (simp add: ownershipInv_def)
  note w = writeToOutput_slots [OF assms(2) len]
  show ?thesis
    using assms(1) w len
    by (intro reset_ownershipInv) (simp_all add: ownershipInv_def ac_simps)
qed

lemma invalid_reset_ownershipInv:
  assumes "ownershipInv infos g" and "\<not> isValid g"
  shows "ownershipInv infos (reset infos g input)"
  using assms by (intro reset_ownershipInv) (auto simp: ownershipInv_def)

lemma produceLoop_ownershipInv:
  "produceLoop infos g fd out fetcher = Inr (st, ex', out', rest) \<Longrightarrow> ownershipInv infos g \<Longrightarrow>
     ownershipInv infos (currentGroup ex')"
proof (induction fetcher arbitrary: g fd)
  case Nil
  then show ?case
    by (auto simp: produceLoop_Nil split: if_splits sum.splits intro: write_reset_ownershipInv)
next
  case (Cons a fetcher)
  obtain state input where a: "a = (state, input)" by (cases a)
  have same: "isSameGroup infos g input \<Longrightarrow> ownershipInv infos (addLine infos g input)"
    using Cons.prems(2) by (intro addLine_ownershipInv) (simp_all add: isSameGroup_def split: if_splits)
  from Cons.prems same show ?case
    unfolding a produceLoop_Cons
    by (auto split: if_splits sum.splits
        dest: Cons.IH invalid_reset_ownershipInv [where input = input])
       (rule write_reset_ownershipInv, assumption, assumption)+
qed

lemma produceRow_ownershipInv:
  "produceRow infos ex out fetcher = Inr (st, ex', out', rest) \<Longrightarrow>
     ownershipInv infos (currentGroup ex) \<Longrightarrow> ownershipInv infos (currentGroup ex')"
  by (auto simp: produceRow_def Let_def split: if_splits sum.splits
      intro: write_reset_ownershipInv produceLoop_ownershipInv)

text \<open>
  Claim C7. Let the accumulator satisfy the ownership invariant (the constructed
  accumulator does, and \<^verbatim>\<open>produceRow\<close> keeps it). When \<^verbatim>\<open>writeToOutput\<close> completes,
  every group-key slot is empty and the values the slots held have been handed to the
  output; the \<^verbatim>\<open>reset\<close> that follows releases nothing, so no moved-out value is
  released a second time, and the invariant holds again. Over the lifetime of the
  accumulator every cloned group-key value is accounted for exactly once: it is either
  handed to the output or released by the destructor, never both and never twice.
\<close>

theorem group_values_released_at_most_once:
  assumes "ownershipInv infos g"
  shows "(writeToOutput infos g out = Inr (g1, out1) \<longrightarrow>
      (\<forall>v \<in> set (groupValues g1). v = EmptyValue) \<and>
      mset (movedLog g1) = mset (movedLog g) + mset (owned (groupValues g)) \<and>
      releasedLog (reset infos g1 input) = [] \<and>
      ownershipInv infos (reset infos g1 input)) \<and>
    (produceRow infos \<lparr>currentGroup = g, fetcherDone = fd\<rparr> out fetcher = Inr (st, ex', out', rest) \<longrightarrow>
      ownershipInv infos (currentGroup ex')) \<and>
    releasedLog g = [] \<and>
    mset (clonedLog g) = mset (movedLog g) + mset (releasedLog (CollectGroup_dtor g))"
proof (intro conjI impI)
  from assms have len: "length (groupValues g) = length (getGroupRegisters infos)"
    and rel: "releasedLog g = []"
    and cons: "mset (clonedLog g) = mset (owned (groupValues g)) + mset (movedLog g)"
    by (simp_all add: ownershipInv_def)
  show "releasedLog g = []" by (rule rel)
  show "mset (clonedLog g) = mset (movedLog g) + mset (releasedLog (CollectGroup_dtor g))"
    using rel cons by (simp add: CollectGroup_dtor_def)
  {
    assume w: "writeToOutput infos g out = Inr (g1, out1)"
    note s = writeToOutput_slots [OF w len]
    show "\<forall>v \<in> set (groupValues g1). v = EmptyValue" by (rule s(2))
    show "mset (movedLog g1) = mset (movedLog g) + mset (owned (groupValues g))" by (rule s(4))
    show "ownershipInv infos (reset infos g1 input)"
      by (rule write_reset_ownershipInv [OF assms w])
    then show "releasedLog (reset infos g1 input) = []"
      by (simp add: ownershipInv_def)
  }
  {
    assume "produceRow infos \<lparr>currentGroup = g, fetcherDone = fd\<rparr> out fetcher
        = Inr (st, ex', out', rest)"
    from produceRow_ownershipInv [OF this] assms show "ownershipInv infos (currentGroup ex')"
      by simp
  }
qed


subsection \<open>Suspension\<close>

lemma withoutWaiting_simps [simp]:
  "withoutWaiting [] = []"
  "withoutWaiting ((WAITING, input) # rest) = withoutWaiting rest"
  "state \<noteq> WAITING \<Longrightarrow> withoutWaiting ((state, input) # rest) = (state, input) # withoutWaiting rest"
  by (simp_all add: withoutWaiting_def)

lemma produceLoop_skip_waiting:
  assumes "wfFetcher fetcher" and "fd \<longrightarrow> fetcher = []"
  shows "(produceLoop infos g fd out fetcher = Inl e \<longrightarrow>
       produceLoop infos g fd out (withoutWaiting fetcher) = Inl e) \<and>
    (produceLoop infos g fd out fetcher = Inr (st, ex', out', rest) \<longrightarrow>
       wfFetcher rest \<and>
       (if st = WAITING then
          out' = out \<and> \<not> fetcherDone ex' \<and>
          produceLoop infos g fd out (withoutWaiting fetcher) =
            produceLoop infos (currentGroup ex') False out (withoutWaiting rest)
        else
          produceLoop infos g fd out (withoutWaiting fetcher) =
            Inr (st, ex', out', withoutWaiting rest) \<and>
          (fetcherDone ex' \<longrightarrow> rest = [])))"
  using assms
proof (induction fetcher arbitrary: g fd)
  case Nil
  show ?case
    by (auto simp: produceLoop_Nil split: sum.splits)
next
  case (Cons a fetcher)
  obtain state input where a: "a = (state, input)" by (cases a)
  from Cons.prems have fdF: "fd = False" by simp
  consider "state = WAITING" | "state = HASMORE" | "state = DONE"
    by (cases state) auto
  then show ?case
  proof cases
    case 1
    with Cons.prems show ?thesis
      unfolding a fdF by (auto simp: produceLoop_Cons)
  next
    case 2
    with Cons.prems a have wf: "wfFetcher fetcher" and init: "isInitialized input"
      by simp_all
    note ih = Cons.IH [OF wf, of False]
    have ww: "withoutWaiting (a # fetcher) = (state, input) # withoutWaiting fetcher"
      using 2 by (simp add: a)
    show ?thesis
    proof (cases "isSameGroup infos g input")
      case True
      with 2 have "produceLoop infos g fd out (a # fetcher)
            = produceLoop infos (addLine infos g input) False out fetcher"
        and "produceLoop infos g fd out (withoutWaiting (a # fetcher))
            = produceLoop infos (addLine infos g input) False out (withoutWaiting fetcher)"
        unfolding ww by (simp_all add: a fdF produceLoop_Cons)
      with ih [of "addLine infos g input"] show ?thesis
        by simp
    next
      case False
      show ?thesis
      proof (cases "isValid g")
        case True
        with False 2 init wf show ?thesis
          unfolding ww a fdF
          by (auto simp: produceLoop_Cons split: sum.splits)
      next
        case nv: False
        with False 2 init have "produceLoop infos g fd out (a # fetcher)
            = produceLoop infos (reset infos g input) False out fetcher"
          and "produceLoop infos g fd out (withoutWaiting (a # fetcher))
            = produceLoop infos (reset infos g input) False out (withoutWaiting fetcher)"
          unfolding ww by (simp_all add: a fdF produceLoop_Cons)
        with ih [of "reset infos g input"] show ?thesis
          by simp
      qed
    qed
  next
    case 3
    with Cons.prems a have rest: "fetcher = []"
      by simp
    have ww: "withoutWaiting (a # fetcher) = a # fetcher"
      using 3 by (simp add: a rest)
    have "st \<noteq> WAITING \<and> rest = []"
      if "produceLoop infos g fd out (a # fetcher) = Inr (st, ex', out', rest)"
      using that unfolding a 3 rest fdF
      by (auto simp: produceLoop_Cons produceLoop_Nil split: sum.splits if_splits)
    then show ?thesis
      unfolding ww by auto
  qed
qed

lemma produceRow_not_done:
  "\<not> fetcherDone ex \<Longrightarrow>
     produceRow infos ex out fetcher = produceLoop infos (currentGroup ex) False out fetcher"
  by (simp add: produceRow_def)

lemma runExecutor_cong:
  "produceRow infos ex freshOutput fetcher = produceRow infos ex' freshOutput fetcher' \<Longrightarrow>
     runExecutor infos ex fetcher = runExecutor infos ex' fetcher'"
  by (subst runExecutor.simps, subst (2) runExecutor.simps) simp

lemma runExecutor_skip_waiting:
  "wfFetcher fetcher \<Longrightarrow> (fetcherDone ex \<longrightarrow> fetcher = []) \<Longrightarrow>
     runExecutor infos ex fetcher = runExecutor infos ex (withoutWaiting fetcher)"
proof (induction "length fetcher" arbitrary: fetcher ex rule: less_induct)
  case less
  show ?case
  proof (cases "fetcherDone ex")
    case True
    with less.prems show ?thesis by simp
  next
    case nd: False
    note pr = produceRow_not_done [OF nd]
    note skip = produceLoop_skip_waiting [OF less.prems(1), of False infos "currentGroup ex" freshOutput]
    show ?thesis
    proof (cases "produceLoop infos (currentGroup ex) False freshOutput fetcher")
      case (Inl e)
      with skip show ?thesis
        by (simp add: runExecutor_Inl pr)
    next
      case (Inr r)
      obtain st ex' out' rest where r: "r = (st, ex', out', rest)"
        by (cases r)
      note res = Inr [unfolded r]
      from skip res have wf: "wfFetcher rest" by simp
      show ?thesis
      proof (cases "st = DONE")
        case True
        with skip res show ?thesis
          by (simp add: runExecutor_DONE pr)
      next
        case False
        from produceLoop_consumes [OF res False] have len: "length rest < length fetcher" .
        show ?thesis
        proof (cases "st = WAITING")
          case True
          with skip res have o: "out' = freshOutput" and nd': "\<not> fetcherDone ex'"
            and eq: "produceLoop infos (currentGroup ex) False freshOutput (withoutWaiting fetcher) =
               produceLoop infos (currentGroup ex') False freshOutput (withoutWaiting rest)"
            by simp_all
          from less.hyps [OF len wf] nd'
          have ih: "runExecutor infos ex' rest = runExecutor infos ex' (withoutWaiting rest)"
            by simp
          have "runExecutor infos ex fetcher = runExecutor infos ex' rest"
            using res True o
            by (simp add: runExecutor_more [where state = WAITING] pr freshOutput_def
                split: sum.splits)
          also note ih
          also have "runExecutor infos ex' (withoutWaiting rest)
              = runExecutor infos ex (withoutWaiting fetcher)"
            by (rule runExecutor_cong) (simp add: pr produceRow_not_done [OF nd'] eq)
          finally show ?thesis .
        next
          case nw: False
          with skip res have eq: "produceLoop infos (currentGroup ex) False freshOutput
                (withoutWaiting fetcher) = Inr (st, ex', out', withoutWaiting rest)"
            and fd': "fetcherDone ex' \<longrightarrow> rest = []"
            by simp_all
          from less.hyps [OF len wf fd']
          have ih: "runExecutor infos ex' rest = runExecutor infos ex' (withoutWaiting rest)" .
          show ?thesis
            using res eq False ih
            by (simp add: runExecutor_more [where state = st] pr)
        qed
      qed
    qed
  qed
qed

text \<open>
  Claim C2. When the fetcher answers with the suspended status, at whatever iteration of
  the loop, \<^verbatim>\<open>produceRow\<close> returns that status at once, with the accumulator, the
  exhaustion flag and the output row exactly as they were before that fetch. And for a
  row source that keeps its contract, invoking again after every suspension produces the
  very same result (the same output rows in the same order, or the same failure) as the
  run on the same row source with the suspensions taken out: no row is counted twice
  and none is dropped.
\<close>

theorem suspension_is_transparent:
  assumes "wfFetcher fetcher" and "\<not> fetcherDone ex"
  shows "produceLoop infos g fd out ((WAITING, input) # rest) =
      Inr (WAITING, \<lparr>currentGroup = g, fetcherDone = fd\<rparr>, out, rest) \<and>
    produceRow infos ex out ((WAITING, input) # rest) = Inr (WAITING, ex, out, rest) \<and>
    runExecutor infos ex fetcher = runExecutor infos ex (withoutWaiting fetcher)"
  using assms
  by (simp add: produceRow_WAITING runExecutor_skip_waiting produceLoop_Cons)


subsection \<open>One output row per run\<close>

text \<open>
  What holds of the run completeness on the code: when the comparison is an
  equivalence, the executor writes some register, and either no array of collected
  values is built or the first row of the stream is not taken to belong to the
  constructed accumulator, the invocations of \<^verbatim>\<open>produceRow\<close> emit exactly one output
  row per maximal run, in the order of the runs, the \<open>k\<close>-th row being finalized from
  the last row of the \<open>k\<close>-th run (lemma \<open>one_row_per_run\<close>).
\<close>

lemma compareEquiv_refl: "compareEquiv infos \<Longrightarrow> Compare infos a a = 0"
  unfolding compareEquiv_def by blast

lemma compareEquiv_sym: "compareEquiv infos \<Longrightarrow> Compare infos a b = 0 \<Longrightarrow> Compare infos b a = 0"
  unfolding compareEquiv_def by blast

lemma compareEquiv_trans:
  "compareEquiv infos \<Longrightarrow> Compare infos a b = 0 \<Longrightarrow> Compare infos b c = 0 \<Longrightarrow>
     Compare infos a c = 0"
  unfolding compareEquiv_def by blast

lemma isSameGroup_nth:
  "isSameGroup infos g input \<longleftrightarrow>
     isInitialized input \<and>
     (\<forall>i < length (getGroupRegisters infos).
        Compare infos (groupValues g ! i) (getValue input (snd (getGroupRegisters infos ! i))) = 0)"
  by (simp add: isSameGroup_def sameFrom_iff)

lemma sameKey_nth:
  "sameKey infos r r' \<longleftrightarrow>
     (\<forall>i < length (getGroupRegisters infos).
        Compare infos (getValue r (snd (getGroupRegisters infos ! i)))
          (getValue r' (snd (getGroupRegisters infos ! i))) = 0)"
  by (simp add: sameKey_def list_all_length)

lemma isSameGroup_sameKey:
  assumes "compareEquiv infos" and "isSameGroup infos g r" and "isInitialized r'"
  shows "isSameGroup infos g r' = sameKey infos r r'"
proof -
  note sym = compareEquiv_sym [OF assms(1)] and trans = compareEquiv_trans [OF assms(1)]
  from assms(2) have k: "\<And>i. i < length (getGroupRegisters infos) \<Longrightarrow>
      Compare infos (groupValues g ! i) (getValue r (snd (getGroupRegisters infos ! i))) = 0"
    by (simp add: isSameGroup_nth)
  have "Compare infos (groupValues g ! i) (getValue r' (snd (getGroupRegisters infos ! i))) = 0
      \<longleftrightarrow> Compare infos (getValue r (snd (getGroupRegisters infos ! i)))
            (getValue r' (snd (getGroupRegisters infos ! i))) = 0"
    if "i < length (getGroupRegisters infos)" for i
  proof
    assume "Compare infos (groupValues g ! i) (getValue r' (snd (getGroupRegisters infos ! i))) = 0"
    from trans [OF sym [OF k [OF that]] this]
    show "Compare infos (getValue r (snd (getGroupRegisters infos ! i)))
            (getValue r' (snd (getGroupRegisters infos ! i))) = 0" .
  next
    assume "Compare infos (getValue r (snd (getGroupRegisters infos ! i)))
            (getValue r' (snd (getGroupRegisters infos ! i))) = 0"
    from trans [OF k [OF that] this]
    show "Compare infos (groupValues g ! i) (getValue r' (snd (getGroupRegisters infos ! i))) = 0" .
  qed
  with assms(3) show ?thesis
    unfolding isSameGroup_nth sameKey_nth by simp
qed

lemma groupValues_reset:
  "isInitialized r \<Longrightarrow> length (groupValues g) = length (getGroupRegisters infos) \<Longrightarrow>
     groupValues (reset infos g r) = map (\<lambda>it. getValue r (snd it)) (getGroupRegisters infos)"
  by (auto simp: reset_def Let_def cloneFrom_full)

lemma length_aggregators_reset [simp]:
  "length (aggregators (reset infos g r)) = length (aggregators g)"
  by (simp add: reset_def Let_def addLine_aggregators)

lemma length_aggregators_addLine [simp]:
  "length (aggregators (addLine infos g r)) = length (aggregators g)"
  by (simp add: addLine_aggregators)

lemma isSameGroup_addLine [simp]:
  "isSameGroup infos (addLine infos g r) r' = isSameGroup infos g r'"
  by (simp add: isSameGroup_def)

lemma openRun_reset:
  assumes "compareEquiv infos" and "isInitialized r"
    and "length (groupValues g) = length (getGroupRegisters infos)"
    and "length (aggregators g) = length (getAggregateTypes infos)"
  shows "openRun infos (reset infos g r) [r]"
proof -
  from assms(2,3) have "isSameGroup infos (reset infos g r) r"
    by (simp add: isSameGroup_nth groupValues_reset compareEquiv_refl [OF assms(1)])
  with assms show ?thesis
    by (simp add: openRun_def groupValues_reset)
qed

lemma openRun_addLine:
  assumes "openRun infos g cur" and "isSameGroup infos g r"
  shows "openRun infos (addLine infos g r) (cur @ [r])"
  using assms by (simp add: openRun_def)

lemma openRun_valid: "openRun infos g cur \<Longrightarrow> isValid g"
  by (auto simp: openRun_def isValid_def isSameGroup_def split: if_splits)

lemma openRun_sameKey:
  "compareEquiv infos \<Longrightarrow> openRun infos g cur \<Longrightarrow> isInitialized r \<Longrightarrow>
     isSameGroup infos g r = sameKey infos (last cur) r"
  by (rule isSameGroup_sameKey) (simp_all add: openRun_def)

lemma moveGroupValues_sourceRow:
  "moveGroupValues i its g out = (g', out') \<Longrightarrow>
     sourceRow out' = (if its = [] then sourceRow out else lastInputRow g)"
proof (induction i its g out rule: moveGroupValues.induct)
  case (1 i g out)
  then show ?case by simp
next
  case (2 i it its g out)
  then show ?case
    by (cases its) (auto simp: Let_def moveValueInto_def)
qed

lemma stealFrom_sourceRow:
  "stealFrom infos src j as out = (as', out') \<Longrightarrow>
     sourceRow out' = (if as = [] then sourceRow out else src)"
proof (induction infos src j as out arbitrary: as' out' rule: stealFrom.induct)
  case (1 infos src j out)
  then show ?case by simp
next
  case (2 infos src j a as out)
  then show ?case
    by (cases as) (auto simp: Let_def moveValueInto_def split: prod.splits)
qed

lemma writeToOutput_sourceRow:
  assumes "writeToOutput infos g out = Inr (g', out')"
    and "getGroupRegisters infos \<noteq> [] \<or> aggregators g \<noteq> [] \<or> getCollectRegister infos \<noteq> MaxRegisterId"
  shows "sourceRow out' = lastInputRow g"
proof -
  obtain ga outa where m: "moveGroupValues 0 (getGroupRegisters infos) g out = (ga, outa)"
    by (cases "moveGroupValues 0 (getGroupRegisters infos) g out")
  obtain aggs outb where s: "stealFrom infos (lastInputRow g) 0 (aggregators g) outa = (aggs, outb)"
    by (cases "stealFrom infos (lastInputRow g) 0 (aggregators g) outa")
  note f = moveGroupValues_fields [OF m]
  from moveGroupValues_sourceRow [OF m] stealFrom_sourceRow [OF s]
  have b: "sourceRow outb =
      (if aggregators g = [] then (if getGroupRegisters infos = [] then sourceRow out else lastInputRow g)
       else lastInputRow g)"
    by simp
  show ?thesis
  proof (cases "getCollectRegister infos = MaxRegisterId")
    case True
    with assms f b show ?thesis
      by (auto simp: writeToOutput_def m s Let_def split: if_splits)
  next
    case False
    show ?thesis
    proof (cases "getCount infos")
      case True
      with assms(1) f False have "out' =
          (cloneValueInto (getCollectRegister infos) (lastInputRow g) (UIntValue (groupLength g)) outb)
            \<lparr>rowsWritten := Suc (rowsWritten outb)\<rparr>"
        by (simp add: writeToOutput_def m s Let_def split: if_splits)
      then show ?thesis
        by (simp add: cloneValueInto_def)
    next
      case nc: False
      with assms(1) f False have "out' =
          (moveValueInto (getCollectRegister infos) (lastInputRow g)
             (ArrayValue (items (builder g))) outb)
            \<lparr>rowsWritten := Suc (rowsWritten outb)\<rparr>"
        by (simp add: writeToOutput_def m s Let_def split: if_splits)
      then show ?thesis
        by (simp add: moveValueInto_def)
    qed
  qed
qed

lemma writeToOutput_lengths:
  assumes "writeToOutput infos g out = Inr (g', out')"
    and "length (groupValues g) = length (getGroupRegisters infos)"
  shows "length (groupValues g') = length (getGroupRegisters infos)"
    and "length (aggregators g') = length (aggregators g)"
proof -
  from writeToOutput_slots(1) [OF assms] assms(2)
  show "length (groupValues g') = length (getGroupRegisters infos)" by simp
  obtain ga outa where m: "moveGroupValues 0 (getGroupRegisters infos) g out = (ga, outa)"
    by (cases "moveGroupValues 0 (getGroupRegisters infos) g out")
  obtain aggs outb where s: "stealFrom infos (lastInputRow g) 0 (aggregators g) outa = (aggs, outb)"
    by (cases "stealFrom infos (lastInputRow g) 0 (aggregators g) outa")
  from assms(1) moveGroupValues_fields [OF m] have "aggregators g' = aggs"
    by (auto simp: writeToOutput_def m s Let_def split: if_splits)
  with stealFrom_result [OF s] show "length (aggregators g') = length (aggregators g)"
    by simp
qed


lemma openRun_write:
  assumes "openRun infos g cur"
    and "getGroupRegisters infos \<noteq> [] \<or> getAggregateTypes infos \<noteq> []
           \<or> getCollectRegister infos \<noteq> MaxRegisterId"
  shows "\<exists>g1 out1. writeToOutput infos g out = Inr (g1, out1) \<and>
      rowsWritten out1 = Suc (rowsWritten out) \<and> sourceRow out1 = last cur \<and>
      length (groupValues g1) = length (getGroupRegisters infos) \<and>
      length (aggregators g1) = length (getAggregateTypes infos)"
proof -
  from assms(1) have v: "isValid g"
    and b: "getCollectRegister infos = MaxRegisterId \<or> getCount infos \<or> isOpenArray (builder g)"
    and l: "length (groupValues g) = length (getGroupRegisters infos)"
    and la: "length (aggregators g) = length (getAggregateTypes infos)"
    and li: "lastInputRow g = last cur"
    by (auto simp: openRun_valid) (auto simp: openRun_def noArray_def)
  from writeToOutput_succeeds [OF v b] obtain g1 out1
    where w: "writeToOutput infos g out = Inr (g1, out1)" by blast
  from assms(2) la have "getGroupRegisters infos \<noteq> [] \<or> aggregators g \<noteq> []
           \<or> getCollectRegister infos \<noteq> MaxRegisterId"
    by auto
  from writeToOutput_sourceRow [OF w this] writeToOutput_rowsWritten [OF w]
    writeToOutput_lengths [OF w l] w li la
  show ?thesis by simp
qed

lemma rowsOf_simps [simp]:
  "rowsOf [] = []"
  "rowsOf ((state, InvalidInputRow) # rest) = rowsOf rest"
  "rowsOf ((state, InputRow vs) # rest) = InputRow vs # rowsOf rest"
  by (simp_all add: rowsOf_def)

lemma rowsOf_Cons:
  "rowsOf ((state, input) # rest) = (if isInitialized input then input # rowsOf rest else rowsOf rest)"
  by (simp add: rowsOf_def)

lemma produceLoop_openRun:
  assumes ce: "compareEquiv infos"
    and wr: "getGroupRegisters infos \<noteq> [] \<or> getAggregateTypes infos \<noteq> []
           \<or> getCollectRegister infos \<noteq> MaxRegisterId"
  shows "openRun infos g cur \<Longrightarrow> wfFetcher fetcher \<Longrightarrow> (fd \<longrightarrow> fetcher = []) \<Longrightarrow>
    \<exists>st ex' out' rest.
      produceLoop infos g fd out fetcher = Inr (st, ex', out', rest) \<and>
      wfFetcher rest \<and> (fetcherDone ex' \<longrightarrow> rest = []) \<and>
      (st = WAITING \<longrightarrow> out' = out \<and>
         (\<exists>cur'. openRun infos (currentGroup ex') cur' \<and>
            runsAcc (sameKey infos) cur (rowsOf fetcher) =
              runsAcc (sameKey infos) cur' (rowsOf rest))) \<and>
      (st = HASMORE \<longrightarrow> rowsWritten out' = Suc (rowsWritten out) \<and>
         (\<exists>R cur'. openRun infos (currentGroup ex') cur' \<and>
            runsAcc (sameKey infos) cur (rowsOf fetcher) =
              R # runsAcc (sameKey infos) cur' (rowsOf rest) \<and>
            sourceRow out' = last R)) \<and>
      (st = DONE \<longrightarrow> rowsWritten out' = Suc (rowsWritten out) \<and>
         (\<exists>R. runsAcc (sameKey infos) cur (rowsOf fetcher) = [R] \<and> sourceRow out' = last R))"
proof (induction fetcher arbitrary: g cur fd)
  case Nil
  from openRun_write [OF Nil.prems(1) wr, of out] obtain g1 out1
    where w: "writeToOutput infos g out = Inr (g1, out1)"
      "rowsWritten out1 = Suc (rowsWritten out)" "sourceRow out1 = last cur"
    by blast
  with openRun_valid [OF Nil.prems(1)] show ?case
    by (simp add: produceLoop_Nil)
next
  case (Cons a fetcher)
  obtain state input where a: "a = (state, input)" by (cases a)
  from Cons.prems have fdF: "fd = False" by simp
  note valid = openRun_valid [OF Cons.prems(1)]
  from openRun_write [OF Cons.prems(1) wr, of out] obtain g1 out1
    where w: "writeToOutput infos g out = Inr (g1, out1)"
      "rowsWritten out1 = Suc (rowsWritten out)" "sourceRow out1 = last cur"
      "length (groupValues g1) = length (getGroupRegisters infos)"
      "length (aggregators g1) = length (getAggregateTypes infos)"
    by blast
  have newrun: "openRun infos (reset infos g1 input) [input]" if "isInitialized input"
    by (rule openRun_reset [OF ce that w(4,5)])
  have same: "isSameGroup infos g input = sameKey infos (last cur) input" if "isInitialized input"
    by (rule openRun_sameKey [OF ce Cons.prems(1) that])
  consider "state = WAITING" | "state = HASMORE" | "state = DONE"
    by (cases state) auto
  then show ?case
  proof cases
    case 1
    with Cons.prems a have "\<not> isInitialized input" "wfFetcher fetcher"
      by simp_all
    with 1 Cons.prems(1) show ?thesis
      unfolding a fdF
      by (auto simp: produceLoop_Cons rowsOf_Cons)
  next
    case 2
    with Cons.prems a have init: "isInitialized input" and wf: "wfFetcher fetcher"
      by simp_all
    show ?thesis
    proof (cases "isSameGroup infos g input")
      case True
      from Cons.IH [OF openRun_addLine [OF Cons.prems(1) True] wf, of False]
      obtain st ex' out' rest where
        r: "produceLoop infos (addLine infos g input) False out fetcher = Inr (st, ex', out', rest)"
        and c: "wfFetcher rest \<and> (fetcherDone ex' \<longrightarrow> rest = []) \<and>
      (st = WAITING \<longrightarrow> out' = out \<and>
         (\<exists>cur'. openRun infos (currentGroup ex') cur' \<and>
            runsAcc (sameKey infos) (cur @ [input]) (rowsOf fetcher) =
              runsAcc (sameKey infos) cur' (rowsOf rest))) \<and>
      (st = HASMORE \<longrightarrow> rowsWritten out' = Suc (rowsWritten out) \<and>
         (\<exists>R cur'. openRun infos (currentGroup ex') cur' \<and>
            runsAcc (sameKey infos) (cur @ [input]) (rowsOf fetcher) =
              R # runsAcc (sameKey infos) cur' (rowsOf rest) \<and>
            sourceRow out' = last R)) \<and>
      (st = DONE \<longrightarrow> rowsWritten out' = Suc (rowsWritten out) \<and>
         (\<exists>R. runsAcc (sameKey infos) (cur @ [input]) (rowsOf fetcher) = [R] \<and>
            sourceRow out' = last R))"
        by simp blast
      have p: "produceLoop infos g fd out (a # fetcher) = Inr (st, ex', out', rest)"
        using True 2 r unfolding a fdF by (simp add: produceLoop_Cons)
      have rr: "runsAcc (sameKey infos) cur (rowsOf (a # fetcher))
          = runsAcc (sameKey infos) (cur @ [input]) (rowsOf fetcher)"
        using True same [OF init] init unfolding a by (simp add: rowsOf_Cons)
      show ?thesis
        unfolding p rr using c by simp
    next
      case False
      have p: "produceLoop infos g fd out (a # fetcher) =
          Inr (HASMORE, \<lparr>currentGroup = reset infos g1 input, fetcherDone = False\<rparr>, out1, fetcher)"
        using False 2 valid w(1) init unfolding a fdF by (simp add: produceLoop_Cons)
      have rr: "runsAcc (sameKey infos) cur (rowsOf (a # fetcher))
          = cur # runsAcc (sameKey infos) [input] (rowsOf fetcher)"
        using False same [OF init] init unfolding a by (simp add: rowsOf_Cons)
      show ?thesis
        unfolding p rr using wf w(2,3) newrun [OF init] by auto
    qed
  next
    case 3
    with Cons.prems a have rest: "fetcher = []" by simp
    show ?thesis
    proof (cases "isInitialized input")
      case False
      have p: "produceLoop infos g fd out (a # fetcher) =
          Inr (DONE, \<lparr>currentGroup = reset infos g1 input, fetcherDone = True\<rparr>, out1, [])"
        using False 3 valid w(1) unfolding a fdF rest
        by (simp add: produceLoop_Cons isSameGroup_def)
      show ?thesis
        unfolding p using False w(2,3) unfolding a rest by (simp add: rowsOf_Cons)
    next
      case init: True
      show ?thesis
      proof (cases "isSameGroup infos g input")
        case True
        from openRun_write [OF openRun_addLine [OF Cons.prems(1) True] wr, of out] obtain g2 out2
          where w2: "writeToOutput infos (addLine infos g input) out = Inr (g2, out2)"
            "rowsWritten out2 = Suc (rowsWritten out)" "sourceRow out2 = last (cur @ [input])"
          by blast
        have p: "produceLoop infos g fd out (a # fetcher) =
            Inr (DONE, \<lparr>currentGroup = reset infos g2 InvalidInputRow, fetcherDone = True\<rparr>,
                 out2, [])"
          using True 3 w2(1) unfolding a fdF rest by (simp add: produceLoop_Cons)
        have rr: "runsAcc (sameKey infos) cur (rowsOf (a # fetcher)) = [cur @ [input]]"
          using True same [OF init] init unfolding a rest by (simp add: rowsOf_Cons)
        show ?thesis
          unfolding p rr using w2(2,3) by simp
      next
        case False
        have p: "produceLoop infos g fd out (a # fetcher) =
            Inr (HASMORE, \<lparr>currentGroup = reset infos g1 input, fetcherDone = True\<rparr>, out1, [])"
          using False 3 valid w(1) init unfolding a fdF rest by (simp add: produceLoop_Cons)
        have rr: "runsAcc (sameKey infos) cur (rowsOf (a # fetcher))
            = cur # runsAcc (sameKey infos) [input] (rowsOf [])"
          using False same [OF init] init unfolding a rest by (simp add: rowsOf_Cons)
        show ?thesis
          unfolding p rr using w(2,3) newrun [OF init] by auto
      qed
    qed
  qed
qed


lemma runExecutor_openRun:
  assumes ce: "compareEquiv infos"
    and wr: "getGroupRegisters infos \<noteq> [] \<or> getAggregateTypes infos \<noteq> []
           \<or> getCollectRegister infos \<noteq> MaxRegisterId"
  shows "openRun infos (currentGroup ex) cur \<Longrightarrow> wfFetcher fetcher \<Longrightarrow>
    (fetcherDone ex \<longrightarrow> fetcher = []) \<Longrightarrow>
    \<exists>outs. runExecutor infos ex fetcher = Inr outs \<and>
      map sourceRow outs = map last (runsAcc (sameKey infos) cur (rowsOf fetcher))"
proof (induction "length fetcher" arbitrary: fetcher ex cur rule: less_induct)
  case less
  show ?case
  proof (cases "fetcherDone ex")
    case True
    with less.prems have e: "fetcher = []" by simp
    from openRun_write [OF less.prems(1) wr, of freshOutput] obtain g1 out1
      where w: "writeToOutput infos (currentGroup ex) freshOutput = Inr (g1, out1)"
        "rowsWritten out1 = Suc (rowsWritten (freshOutput :: 'a OutputAqlItemRow))"
        "sourceRow out1 = last cur"
      by blast
    from True openRun_valid [OF less.prems(1)] w(1)
    have "produceRow infos ex freshOutput fetcher =
        Inr (DONE, ex\<lparr>currentGroup := reset infos g1 InvalidInputRow\<rparr>, out1, fetcher)"
      by (simp add: produceRow_def)
    from runExecutor_DONE [OF this] w(2,3) show ?thesis
      by (simp add: e)
  next
    case False
    note pr = produceRow_not_done [OF False]
    from produceLoop_openRun [OF ce wr less.prems(1,2), of False freshOutput]
    obtain st ex' out' rest where
      p: "produceLoop infos (currentGroup ex) False freshOutput fetcher = Inr (st, ex', out', rest)"
      and wf: "wfFetcher rest" and fd: "fetcherDone ex' \<longrightarrow> rest = []"
      and cw: "st = WAITING \<Longrightarrow> out' = freshOutput \<and>
         (\<exists>cur'. openRun infos (currentGroup ex') cur' \<and>
            runsAcc (sameKey infos) cur (rowsOf fetcher) =
              runsAcc (sameKey infos) cur' (rowsOf rest))"
      and ch: "st = HASMORE \<Longrightarrow> rowsWritten out' = Suc (rowsWritten (freshOutput :: 'a OutputAqlItemRow)) \<and>
         (\<exists>R cur'. openRun infos (currentGroup ex') cur' \<and>
            runsAcc (sameKey infos) cur (rowsOf fetcher) =
              R # runsAcc (sameKey infos) cur' (rowsOf rest) \<and>
            sourceRow out' = last R)"
      and cd: "st = DONE \<Longrightarrow> rowsWritten out' = Suc (rowsWritten (freshOutput :: 'a OutputAqlItemRow)) \<and>
         (\<exists>R. runsAcc (sameKey infos) cur (rowsOf fetcher) = [R] \<and> sourceRow out' = last R)"
      by simp blast
    consider "st = WAITING" | "st = HASMORE" | "st = DONE"
      by (cases st) auto
    then show ?thesis
    proof cases
      case 1
      from cw [OF 1] obtain cur' where o: "out' = freshOutput"
        and r: "openRun infos (currentGroup ex') cur'"
        and e: "runsAcc (sameKey infos) cur (rowsOf fetcher) = runsAcc (sameKey infos) cur' (rowsOf rest)"
        by blast
      from produceLoop_consumes [OF p] 1 have "length rest < length fetcher" by simp
      from less.hyps [OF this r wf fd] obtain outs where
        "runExecutor infos ex' rest = Inr outs"
        "map sourceRow outs = map last (runsAcc (sameKey infos) cur' (rowsOf rest))"
        by blast
      with runExecutor_more [of infos ex fetcher st ex' out' rest] p 1 o e show ?thesis
        by (simp add: pr freshOutput_def)
    next
      case 2
      from ch [OF 2] obtain R cur' where
        o: "rowsWritten out' = Suc (rowsWritten (freshOutput :: 'a OutputAqlItemRow))"
        and r: "openRun infos (currentGroup ex') cur'"
        and e: "runsAcc (sameKey infos) cur (rowsOf fetcher) =
              R # runsAcc (sameKey infos) cur' (rowsOf rest)"
        and s: "sourceRow out' = last R"
        by blast
      from produceLoop_consumes [OF p] 2 have "length rest < length fetcher" by simp
      from less.hyps [OF this r wf fd] obtain outs where
        "runExecutor infos ex' rest = Inr outs"
        "map sourceRow outs = map last (runsAcc (sameKey infos) cur' (rowsOf rest))"
        by blast
      with runExecutor_more [of infos ex fetcher st ex' out' rest] p 2 o e s show ?thesis
        by (simp add: pr)
    next
      case 3
      from cd [OF 3] obtain R where
        o: "rowsWritten out' = Suc (rowsWritten (freshOutput :: 'a OutputAqlItemRow))"
        and e: "runsAcc (sameKey infos) cur (rowsOf fetcher) = [R]"
        and s: "sourceRow out' = last R"
        by blast
      with runExecutor_DONE [of infos ex fetcher ex' out' rest] p 3 show ?thesis
        by (simp add: pr)
    qed
  qed
qed

lemma runExecutor_pristine:
  assumes ce: "compareEquiv infos"
    and wr: "getGroupRegisters infos \<noteq> [] \<or> getAggregateTypes infos \<noteq> []
           \<or> getCollectRegister infos \<noteq> MaxRegisterId"
    and nv: "\<not> isValid (currentGroup ex)" and nd: "\<not> fetcherDone ex"
    and lg: "length (groupValues (currentGroup ex)) = length (getGroupRegisters infos)"
    and la: "length (aggregators (currentGroup ex)) = length (getAggregateTypes infos)"
  shows "wfFetcher fetcher \<Longrightarrow>
    noArray infos \<or> (\<forall>r \<in> set (take 1 (rowsOf fetcher)). \<not> isSameGroup infos (currentGroup ex) r) \<Longrightarrow>
    \<exists>outs. runExecutor infos ex fetcher = Inr outs \<and>
      map sourceRow outs = map last (runs (sameKey infos) (rowsOf fetcher))"
proof (induction fetcher)
  case Nil
  from runExecutor_DONE [OF produceRow_no_rows_Nil [OF nv]] show ?case
    by (simp add: freshOutput_def)
next
  case (Cons a fetcher)
  obtain state input where a: "a = (state, input)" by (cases a)
  let ?g = "currentGroup ex"
  show ?case
  proof (cases "isInitialized input")
    case False
    then have inv: "input = InvalidInputRow" by (cases input) simp_all
    show ?thesis
    proof (cases "state = DONE")
      case True
      with Cons.prems(1) have "fetcher = []"
        unfolding a by simp
      with runExecutor_DONE [OF produceRow_no_rows_DONE [OF nv]] show ?thesis
        unfolding a inv True by (simp add: freshOutput_def)
    next
      case nD: False
      with Cons.prems(1) False have st: "state = WAITING" and wf: "wfFetcher fetcher"
        unfolding a by (cases state; simp)+
      from Cons.IH [OF wf] Cons.prems(2) obtain outs where
        "runExecutor infos ex fetcher = Inr outs"
        "map sourceRow outs = map last (runs (sameKey infos) (rowsOf fetcher))"
        unfolding a inv by auto
      moreover from nd have "produceRow infos ex freshOutput ((WAITING, input) # fetcher)
          = Inr (WAITING, ex, freshOutput, fetcher)"
        by (intro produceRow_WAITING) simp
      ultimately show ?thesis
        unfolding a st inv using runExecutor_more [of infos ex "(WAITING, InvalidInputRow) # fetcher"
            WAITING ex freshOutput fetcher]
        by (simp add: freshOutput_def)
    qed
  next
    case init: True
    let ?g' = "if isSameGroup infos ?g input then addLine infos ?g input else reset infos ?g input"
    from Cons.prems(2) init have na: "isSameGroup infos ?g input \<Longrightarrow> noArray infos"
      unfolding a by (auto simp: rowsOf_Cons)
    have opened: "openRun infos ?g' [input]"
    proof (cases "isSameGroup infos ?g input")
      case True
      with na lg la show ?thesis
        by (simp add: openRun_def)
    next
      case False
      with openRun_reset [OF ce init lg la] show ?thesis by simp
    qed
    have rr: "runs (sameKey infos) (rowsOf (a # fetcher)) = runsAcc (sameKey infos) [input] (rowsOf fetcher)"
      unfolding a using init by (simp add: rowsOf_Cons)
    from Cons.prems(1) init consider "state = HASMORE" "wfFetcher fetcher" | "state = DONE" "fetcher = []"
      unfolding a by (cases state) auto
    then show ?thesis
    proof cases
      case 1
      have "produceRow infos ex freshOutput (a # fetcher) =
          produceRow infos \<lparr>currentGroup = ?g', fetcherDone = False\<rparr> freshOutput fetcher"
        unfolding a using 1 nd nv init
        by (simp add: produceRow_def produceLoop_Cons)
      from runExecutor_cong [OF this]
        runExecutor_openRun [OF ce wr, of "\<lparr>currentGroup = ?g', fetcherDone = False\<rparr>" "[input]" fetcher]
        opened 1(2)
      show ?thesis
        unfolding rr by simp
    next
      case 2
      from openRun_write [OF opened wr, of freshOutput] obtain g1 out1
        where w: "writeToOutput infos ?g' freshOutput = Inr (g1, out1)"
          "rowsWritten out1 = Suc (rowsWritten (freshOutput :: 'a OutputAqlItemRow))"
          "sourceRow out1 = input"
        by auto
      have "\<exists>ex'. produceRow infos ex freshOutput (a # fetcher) = Inr (DONE, ex', out1, [])"
        unfolding a 2 using nd nv init w(1)
        by (auto simp: produceRow_def produceLoop_Cons produceLoop_Nil)
      then obtain ex' where "produceRow infos ex freshOutput (a # fetcher) = Inr (DONE, ex', out1, [])"
        by blast
      from runExecutor_DONE [OF this] w(2,3) rr show ?thesis
        unfolding 2 by simp
    qed
  qed
qed

lemma one_row_per_run:
  assumes "SortedCollectExecutor_ctor infos = Inr ex" and "wfFetcher fetcher"
    and "compareEquiv infos"
    and "getGroupRegisters infos \<noteq> [] \<or> getAggregateTypes infos \<noteq> []
           \<or> getCollectRegister infos \<noteq> MaxRegisterId"
    and "noArray infos \<or> (\<forall>r \<in> set (take 1 (rowsOf fetcher)). \<not> isSameGroup infos (currentGroup ex) r)"
  shows "\<exists>outs. runExecutor infos ex fetcher = Inr outs \<and>
      map sourceRow outs = map last (runs (sameKey infos) (rowsOf fetcher))"
  using assms(1)
  by (intro runExecutor_pristine [OF assms(3,4) _ _ _ _ assms(2,5)])
     (simp_all add: ctor_not_valid ctor_state)

text \<open>
  Where it does not hold: when an array of collected values is built and the first row
  is taken to belong to the constructed accumulator, the row is folded in with no
  \<^verbatim>\<open>reset\<close>, the array is not open, and finalizing the run fails.
\<close>

lemma first_row_in_constructed_group_fails:
  assumes "SortedCollectExecutor_ctor infos = Inr ex"
    and "isSameGroup infos (currentGroup ex) input"
    and "\<not> noArray infos"
  shows "produceRow infos ex out ((DONE, input) # rest) = Inl AssertionFailed"
proof -
  let ?g = "addLine infos (currentGroup ex) input"
  obtain ga outa where m: "moveGroupValues 0 (getGroupRegisters infos) ?g out = (ga, outa)"
    by (cases "moveGroupValues 0 (getGroupRegisters infos) ?g out")
  obtain aggs outb where s: "stealFrom infos input 0 (aggregators ?g) outa = (aggs, outb)"
    by (cases "stealFrom infos input 0 (aggregators ?g) outa")
  from assms(2) have init: "isInitialized input"
    by (simp add: isSameGroup_def split: if_splits)
  have "\<not> isOpenArray (builder ?g)"
    by (simp add: ctor_state(3) [OF assms(1)] freshBuilder_def)
  with moveGroupValues_fields [OF m] assms(3) init
  have "writeToOutput infos ?g out = Inl AssertionFailed"
    by (simp add: writeToOutput_def m s Let_def noArray_def)
  with assms(2) show ?thesis
    by (simp add: produceRow_def produceLoop_Cons ctor_state(1) [OF assms(1)])
qed

section \<open>Worked examples\<close>

lemma example_ctor:
  "SortedCollectExecutor_ctor exampleInfos = Inr (exampleExecutor exampleInfos)"
  "SortedCollectExecutor_ctor countInfos = Inr (exampleExecutor countInfos)"
  "SortedCollectExecutor_ctor noGroupInfos = Inr (exampleExecutor noGroupInfos)"
  by (simp_all add: exampleExecutor_def SortedCollectExecutor_ctor_def CollectGroup_ctor_def
      exampleInfos_def countInfos_def noGroupInfos_def)


lemma compareInt_equiv: "compareEquiv exampleInfos"
  unfolding compareEquiv_def
proof (intro conjI allI impI)
  fix a b c :: "int AqlValue"
  show "Compare exampleInfos a a = 0"
    by (cases a) (simp_all add: exampleInfos_def compareInt_def)
  show "Compare exampleInfos b a = 0" if "Compare exampleInfos a b = 0"
    using that by (cases a; cases b) (simp_all add: exampleInfos_def compareInt_def split: if_splits)
  show "Compare exampleInfos a c = 0" if "Compare exampleInfos a b = 0" "Compare exampleInfos b c = 0"
    using that
    by (cases a; cases b; cases c) (simp_all add: exampleInfos_def compareInt_def split: if_splits)
qed

lemma one_row_per_run_example:
  "\<exists>outs. runExecutor exampleInfos (exampleExecutor exampleInfos) exampleFetcher = Inr outs \<and>
     map sourceRow outs = [InputRow [Value 1, Value 20], InputRow [Value 2, Value 30]]"
proof -
  have wf: "wfFetcher exampleFetcher"
    by (simp add: exampleFetcher_def)
  have wr: "getGroupRegisters exampleInfos \<noteq> [] \<or> getAggregateTypes exampleInfos \<noteq> []
      \<or> getCollectRegister exampleInfos \<noteq> MaxRegisterId"
    by (simp add: exampleInfos_def)
  have first: "noArray exampleInfos \<or>
      (\<forall>r \<in> set (take 1 (rowsOf exampleFetcher)).
         \<not> isSameGroup exampleInfos (currentGroup (exampleExecutor exampleInfos)) r)"
    by code_simp
  have rs: "map last (runs (sameKey exampleInfos) (rowsOf exampleFetcher)) =
      [InputRow [Value 1, Value 20], InputRow [Value 2, Value 30]]"
    by code_simp
  from one_row_per_run [OF example_ctor(1) wf compareInt_equiv wr first] rs show ?thesis
    by simp
qed

text \<open>
  Claim C1. The executor is to emit exactly one output row per maximal run of rows with
  equal group-key values, in the order of the runs. With no group register configured
  all rows form one run; but the first row is folded in by \<^verbatim>\<open>addLine\<close> with no
  \<^verbatim>\<open>reset\<close> before it, the array of collected values is never opened, and
  \<^verbatim>\<open>writeToOutput\<close> fails its own assertion that the array is open: on three rows,
  collecting an expression into an array, the invocations end in the failure and emit no
  row.
\<close>

theorem no_group_registers_array_mode_fails:
  "runExecutor noGroupInfos (exampleExecutor noGroupInfos)
     [(HASMORE, InputRow [Value 1, Value 10]), (HASMORE, InputRow [Value 1, Value 20]),
      (DONE, InputRow [Value 2, Value 30])] = Inl AssertionFailed"
  by code_simp

text \<open>
  Claim C3. When a pulled row starts a new group while a valid group is open,
  \<^verbatim>\<open>produceRow\<close> is to finalize the open group into the output, start the new run and
  report has-more or done. With no group register and an array of collected values, the
  first invocation folds the first row in by \<^verbatim>\<open>addLine\<close> with no \<^verbatim>\<open>reset\<close> and
  returns suspended, leaving a valid group open whose array was never opened; the next
  invocation pulls the end of the stream, which is not of the same group, and
  \<^verbatim>\<open>writeToOutput\<close> fails its assertion that the array is open: the invocation ends in
  the failure instead of finalizing the group and reporting done.
\<close>

theorem new_group_with_unopened_array_fails:
  "produceRow noGroupInfos (exampleExecutor noGroupInfos) freshOutput
       [(HASMORE, InputRow [Value 1, Value 10]), (WAITING, InvalidInputRow),
        (DONE, InvalidInputRow)] =
     Inr (WAITING,
          \<lparr>currentGroup =
             addLine noGroupInfos (currentGroup (exampleExecutor noGroupInfos))
               (InputRow [Value 1, Value 10]),
           fetcherDone = False\<rparr>,
          freshOutput, [(DONE, InvalidInputRow)]) \<and>
   isValid (addLine noGroupInfos (currentGroup (exampleExecutor noGroupInfos))
              (InputRow [Value 1, Value 10])) \<and>
   \<not> isSameGroup noGroupInfos
       (addLine noGroupInfos (currentGroup (exampleExecutor noGroupInfos))
          (InputRow [Value 1, Value 10])) InvalidInputRow \<and>
   produceRow noGroupInfos
       \<lparr>currentGroup =
          addLine noGroupInfos (currentGroup (exampleExecutor noGroupInfos))
            (InputRow [Value 1, Value 10]),
        fetcherDone = False\<rparr>
       freshOutput [(DONE, InvalidInputRow)] = Inl AssertionFailed"
  by code_simp

theorem isSameGroup_iff_witness:
  "isSameGroup exampleInfos (exampleGroup exampleInfos) (InputRow [Value 1, Value 20]) \<and>
   \<not> isSameGroup exampleInfos (exampleGroup exampleInfos) (InputRow [Value 2, Value 30]) \<and>
   \<not> isSameGroup exampleInfos (exampleGroup exampleInfos) InvalidInputRow"
  using isSameGroup_iff [of exampleInfos "exampleGroup exampleInfos" "InputRow [Value 1, Value 20]"]
    isSameGroup_iff [of exampleInfos "exampleGroup exampleInfos" "InputRow [Value 2, Value 30]"]
    isSameGroup_iff [of exampleInfos "exampleGroup exampleInfos" InvalidInputRow]
  by (simp add: exampleGroup_def exampleInfos_def reset_def Let_def compareInt_def
      exampleExecutor_def SortedCollectExecutor_ctor_def CollectGroup_ctor_def initialize_def
      addLine_def)


theorem produceRow_at_most_one_row_witness:
  "\<exists>ex' out' rest.
     produceRow exampleInfos (exampleExecutor exampleInfos) freshOutput exampleFetcher =
       Inr (WAITING, ex', out', rest) \<and>
     rowsWritten out' \<le> Suc (rowsWritten (freshOutput :: int OutputAqlItemRow)) \<and>
     out' = freshOutput"
proof -
  have "case produceRow exampleInfos (exampleExecutor exampleInfos) freshOutput exampleFetcher of
      Inl e \<Rightarrow> False | Inr (st, r) \<Rightarrow> st = WAITING"
    by code_simp
  then obtain ex' out' rest where
    p: "produceRow exampleInfos (exampleExecutor exampleInfos) freshOutput exampleFetcher =
       Inr (WAITING, ex', out', rest)"
    by (auto split: sum.splits)
  from produceRow_at_most_one_row [OF p] p show ?thesis
    by simp
qed

theorem empty_group_registers_fold_first_row_witness:
  "isSameGroup noGroupInfos (exampleGroup noGroupInfos) (InputRow [Value 1, Value 10]) \<and>
   produceRow noGroupInfos (exampleExecutor noGroupInfos) freshOutput
       [(HASMORE, InputRow [Value 1, Value 10])] =
     produceLoop noGroupInfos
       (addLine noGroupInfos (currentGroup (exampleExecutor noGroupInfos))
          (InputRow [Value 1, Value 10])) False freshOutput [] \<and>
   \<not> isOpenArray (builder (addLine noGroupInfos (currentGroup (exampleExecutor noGroupInfos))
          (InputRow [Value 1, Value 10])))"
proof -
  have "getGroupRegisters noGroupInfos = []"
    by (simp add: noGroupInfos_def)
  from empty_group_registers_fold_first_row [OF this example_ctor(3),
      of "InputRow [Value 1, Value 10]" "exampleGroup noGroupInfos" freshOutput "[]"]
  show ?thesis by simp
qed

lemma new_group_branch_example:
  "isValid (exampleGroup exampleInfos) \<and>
   (\<exists>g1 out1.
      writeToOutput exampleInfos (exampleGroup exampleInfos) freshOutput = Inr (g1, out1) \<and>
      rowsWritten out1 = 1 \<and>
      produceLoop exampleInfos (exampleGroup exampleInfos) False freshOutput
          [(DONE, InputRow [Value 2, Value 30])] =
        Inr (HASMORE,
             \<lparr>currentGroup = reset exampleInfos g1 (InputRow [Value 2, Value 30]),
                fetcherDone = True\<rparr>, out1, []) \<and>
      produceRow exampleInfos \<lparr>currentGroup = exampleGroup exampleInfos, fetcherDone = True\<rparr>
          freshOutput [] =
        Inr (DONE, \<lparr>currentGroup = reset exampleInfos g1 InvalidInputRow, fetcherDone = True\<rparr>,
             out1, []))"
proof -
  have v: "isValid (exampleGroup exampleInfos)"
    by (simp add: exampleGroup_def)
  have o: "isOpenArray (builder (exampleGroup exampleInfos))"
    by (simp add: exampleGroup_def)
  have n: "\<not> isSameGroup exampleInfos (exampleGroup exampleInfos) (InputRow [Value 2, Value 30])"
    by code_simp
  note t = new_group_branch [OF v, of exampleInfos "InputRow [Value 2, Value 30]" DONE
      False freshOutput "[]" _ "[]"]
  from t o obtain g1 out1 where
    w: "writeToOutput exampleInfos (exampleGroup exampleInfos) freshOutput = Inr (g1, out1)"
    and r: "rowsWritten out1 = Suc (rowsWritten (freshOutput :: int OutputAqlItemRow))"
    by blast
  from t n w r v show ?thesis
    by (simp add: freshOutput_def)
qed

theorem empty_input_no_output_witness:
  "wfFetcher [(WAITING, InvalidInputRow), (DONE, InvalidInputRow :: int InputAqlItemRow)] \<and>
   rowsOf [(WAITING, InvalidInputRow), (DONE, InvalidInputRow :: int InputAqlItemRow)] = [] \<and>
   runExecutor exampleInfos (exampleExecutor exampleInfos)
     [(WAITING, InvalidInputRow), (DONE, InvalidInputRow)] = Inr [] \<and>
   produceRow exampleInfos (exampleExecutor exampleInfos) freshOutput [(DONE, InvalidInputRow)] =
     Inr (DONE, (exampleExecutor exampleInfos)\<lparr>fetcherDone := True\<rparr>, freshOutput, [])"
proof -
  have wf: "wfFetcher [(WAITING, InvalidInputRow), (DONE, InvalidInputRow :: int InputAqlItemRow)]"
    by simp
  have no: "rowsOf [(WAITING, InvalidInputRow), (DONE, InvalidInputRow :: int InputAqlItemRow)] = []"
    by (simp add: rowsOf_def)
  from empty_input_no_output [OF example_ctor(1) wf no, of freshOutput] wf no show ?thesis
    by simp
qed

theorem count_equals_rows_of_run_witness:
  "\<exists>g' out'.
     writeToOutput countInfos
       (foldl (addLine countInfos)
          (reset countInfos (currentGroup (exampleExecutor countInfos)) (InputRow [Value 1, Value 10]))
          [InputRow [Value 1, Value 20], InputRow [Value 1, Value 30]])
       freshOutput = Inr (g', out') \<and>
     last (cells out') = (4, UIntValue 3) \<and>
     unat (3 :: 64 word) = 3"
proof -
  have c: "getCollectRegister countInfos \<noteq> MaxRegisterId" "getCount countInfos"
    by (simp_all add: countInfos_def exampleInfos_def MaxRegisterId_def)
  with ctor_state(5) [OF example_ctor(2)]
  have c: "getCollectRegister countInfos \<noteq> MaxRegisterId" "getCount countInfos"
    "countFlag (currentGroup (exampleExecutor countInfos))"
    by simp_all
  have r: "isInitialized (InputRow [Value 1, Value (10 :: int)])"
    "list_all isInitialized [InputRow [Value 1, Value 20], InputRow [Value 1, Value (30 :: int)]]"
    by simp_all
  from count_equals_rows_of_run [OF c r, of freshOutput] show ?thesis
    by (simp add: countInfos_def exampleInfos_def)
qed

theorem aggregators_reduce_per_row_steal_once_witness:
  "\<exists>g' out'.
     writeToOutput exampleInfos
       (foldl (addLine exampleInfos) (exampleGroup exampleInfos) [InputRow [Value 1, Value 20]])
       freshOutput = Inr (g', out') \<and>
     calls (aggregators g' ! 0) =
       [AggReset, AggReset, AggReduce (Value 10), AggReduce (Value 20), AggSteal] \<and>
     (3, Stolen ''SUM'' [Value 10, Value 20]) \<in> set (cells out')"
proof -
  let ?run = "foldl (addLine exampleInfos) (exampleGroup exampleInfos) [InputRow [Value 1, Value 20]]"
  have "isValid ?run" "isOpenArray (builder ?run)"
    by (simp_all add: exampleGroup_def)
  from writeToOutput_succeeds [OF this(1), of exampleInfos freshOutput] this(2)
  obtain g' out' where w: "writeToOutput exampleInfos ?run freshOutput = Inr (g', out')"
    by blast
  have "getAggregateTypes exampleInfos = [''SUM'']"
    by (simp add: exampleInfos_def)
  with ctor_state(6) [OF example_ctor(1)]
  have j: "0 < length (aggregators (currentGroup (exampleExecutor exampleInfos)))"
    and a: "aggregators (currentGroup (exampleExecutor exampleInfos)) ! 0 =
      \<lparr>aggType = ''SUM'', calls = [AggReset]\<rparr>"
    by (simp_all add: aggReset_def fromTypeString_def)
  from aggregators_reduce_per_row_steal_once [of "InputRow [Value 1, Value 10]" 0
      "currentGroup (exampleExecutor exampleInfos)" exampleInfos "[InputRow [Value 1, Value 20]]"
      freshOutput g' out'] w j a
  show ?thesis
    by (simp add: exampleGroup_def exampleInfos_def)
qed

theorem group_values_released_at_most_once_witness:
  "ownershipInv exampleInfos (exampleGroup exampleInfos) \<and>
   (\<exists>g1 out1.
      writeToOutput exampleInfos (exampleGroup exampleInfos) freshOutput = Inr (g1, out1) \<and>
      groupValues g1 = [EmptyValue] \<and>
      mset (movedLog g1) = {#Value 1#} \<and>
      releasedLog (reset exampleInfos g1 (InputRow [Value 2, Value 30])) = [] \<and>
      ownershipInv exampleInfos (reset exampleInfos g1 (InputRow [Value 2, Value 30])))"
proof -
  have inv: "ownershipInv exampleInfos (exampleGroup exampleInfos)"
    unfolding exampleGroup_def
    by (rule invalid_reset_ownershipInv [OF ctor_ownershipInv [OF example_ctor(1)]
          ctor_not_valid [OF example_ctor(1)]])
  have "isValid (exampleGroup exampleInfos)" "isOpenArray (builder (exampleGroup exampleInfos))"
    by (simp_all add: exampleGroup_def)
  from writeToOutput_succeeds [OF this(1), of exampleInfos freshOutput] this(2)
  obtain g1 out1 where
    w: "writeToOutput exampleInfos (exampleGroup exampleInfos) freshOutput = Inr (g1, out1)"
    by blast
  have gv: "groupValues (exampleGroup exampleInfos) = [Value 1]"
    "movedLog (exampleGroup exampleInfos) = []"
    by code_simp+
  note t = group_values_released_at_most_once [OF inv, of freshOutput g1 out1
      "InputRow [Value 2, Value 30]"]
  from inv have "length (groupValues (exampleGroup exampleInfos)) = length (getGroupRegisters exampleInfos)"
    by (simp add: ownershipInv_def)
  from writeToOutput_slots(1) [OF w this] have "length (groupValues g1) = 1"
    by (simp add: gv)
  with t w have "groupValues g1 = [EmptyValue]"
    by (cases "groupValues g1") auto
  with t w inv gv show ?thesis
    by (simp add: owned_def)
qed

theorem suspension_is_transparent_witness:
  "wfFetcher exampleFetcher \<and> \<not> fetcherDone (exampleExecutor exampleInfos) \<and>
   produceRow exampleInfos (exampleExecutor exampleInfos) freshOutput
       ((WAITING, InvalidInputRow) # exampleFetcher) =
     Inr (WAITING, exampleExecutor exampleInfos, freshOutput, exampleFetcher) \<and>
   runExecutor exampleInfos (exampleExecutor exampleInfos) exampleFetcher =
     runExecutor exampleInfos (exampleExecutor exampleInfos) (withoutWaiting exampleFetcher) \<and>
   map_sum id (map cells) (runExecutor exampleInfos (exampleExecutor exampleInfos) exampleFetcher) =
     Inr [[(2, Moved (Value 1)), (3, Stolen ''SUM'' [Value 10, Value 20]),
           (4, ArrayValue [ExpressionItem (Value 10), ExpressionItem (Value 20)])],
          [(2, Moved (Value 2)), (3, Stolen ''SUM'' [Value 30]),
           (4, ArrayValue [ExpressionItem (Value 30)])]]"
proof -
  have wf: "wfFetcher exampleFetcher"
    by (simp add: exampleFetcher_def)
  have nd: "\<not> fetcherDone (exampleExecutor exampleInfos)"
    by (simp add: ctor_state(1) [OF example_ctor(1)])
  have ev: "map_sum id (map cells)
      (runExecutor exampleInfos (exampleExecutor exampleInfos) exampleFetcher) =
     Inr [[(2, Moved (Value 1)), (3, Stolen ''SUM'' [Value 10, Value 20]),
           (4, ArrayValue [ExpressionItem (Value 10), ExpressionItem (Value 20)])],
          [(2, Moved (Value 2)), (3, Stolen ''SUM'' [Value 30]),
           (4, ArrayValue [ExpressionItem (Value 30)])]]"
    by code_simp
  from suspension_is_transparent [OF wf nd, of exampleInfos _ _ freshOutput InvalidInputRow
      exampleFetcher] wf nd ev
  show ?thesis by simp
qed


end
